theory Spec2Isabelle
  imports Complex_Main "HOL-Library.AList"
begin

section \<open>Data model\<close>

text \<open>
  Vectors are sequences of numbers (\<open>Float32Array | number[]\<close>). The embedding works over
  the reals; the rounding of a 32-bit float array is a parameter where it occurs
  (\<open>fromJSON\<close>).
\<close>

type_synonym vec = "real list"

type_synonym simfun = "vec \<Rightarrow> vec \<Rightarrow> real"

text \<open>
  \<open>AstroNode\<close> (class of the same name). \<open>neighbors\<close> is a JavaScript array indexed by
  level whose entries may be missing: \<open>None\<close> is a hole (\<open>undefined\<close>), \<open>Some ids\<close> an
  adjacency list. The constructor's parameter \<open>M\<close> is not stored.
\<close>

record AstroNode =
  uniqueid :: string
  level :: int
  vector :: vec
  neighbors :: "string list option list"
  deleted :: bool

text \<open>The object spread \<open>{ ...node, score }\<close> returned by the search.\<close>

record ScoredNode = AstroNode +
  score :: real

datatype error = DimensionMismatch | InvalidMetric | TypeError

datatype 'a result = Ok 'a | Throw error

text \<open>
  The class \<open>HNSW\<close>. \<open>nodes\<close> is a JavaScript \<open>Map\<close>, which keeps its keys in insertion
  order: an association list. A reference to a node object is the key under which the
  object is stored; \<open>undefined\<close> is a key that does not resolve.
\<close>

record HNSW =
  metric :: string
  similarityFunction :: simfun
  d :: "int option"
  M :: int
  efConstruction :: int
  levelMax :: int
  entryPointId :: string
  nodes :: "(string \<times> AstroNode) list"
  probs :: "real list"

section \<open>Similarity kernels\<close>

text \<open>
  Modelled from the spec: \<open>cosineSimilarity\<close> and \<open>euclideanSimilarity\<close> are imported
  from a module \<open>./similarity\<close> that is not among the sources. Section 4.A of the
  specification gives them: the cosine is the dot product over the product of the norms,
  and 0 when a norm is 0; the euclidean similarity is \<open>1 / (1 + distance)\<close>.
\<close>

definition dot :: "vec \<Rightarrow> vec \<Rightarrow> real" where
  "dot a b = sum_list (map2 (\<lambda>x y. x * y) a b)"

definition cosineSimilarity :: simfun where
  "cosineSimilarity a b =
     (if sqrt (dot a a) = 0 \<or> sqrt (dot b b) = 0 then 0
      else dot a b / (sqrt (dot a a) * sqrt (dot b b)))"

definition euclideanSimilarity :: simfun where
  "euclideanSimilarity a b = 1 / (1 + sqrt (sum_list (map2 (\<lambda>x y. (x - y)\<^sup>2) a b)))"

section \<open>The ordered working set (\<open>pqueue.ts\<close>)\<close>

text \<open>
  \<open>PriorityQueue.push\<close>: the index advances while \<open>compare(item, items[i]) > 0\<close>, then the
  item is spliced in. The queue is its array \<open>items\<close>.
\<close>

fun push :: "('a \<Rightarrow> 'a \<Rightarrow> real) \<Rightarrow> 'a \<Rightarrow> 'a list \<Rightarrow> 'a list" where
  "push compare item [] = [item]"
| "push compare item (x # xs) =
     (if compare item x > 0 then x # push compare item xs else item # x # xs)"

definition popFirst :: "'a list \<Rightarrow> 'a option \<times> 'a list" where
  "popFirst items = (case items of [] \<Rightarrow> (None, []) | x # xs \<Rightarrow> (Some x, xs))"

definition popLast :: "'a list \<Rightarrow> 'a list" where
  "popLast items = butlast items"

definition getLast :: "'a list \<Rightarrow> 'a option" where
  "getLast items = (if items = [] then None else Some (last items))"

text \<open>
  \<open>Array.prototype.slice(0, k)\<close>: a negative end counts from the end of the array.
\<close>

definition slice0 :: "'a list \<Rightarrow> int \<Rightarrow> 'a list" where
  "slice0 xs k = (if 0 \<le> k then take (nat k) xs else take (length xs - nat (- k)) xs)"

section \<open>Level selection\<close>

text \<open>
  \<open>Array.prototype.forEach\<close> calls the callback on every element with its index and
  discards what the callback returns. The callback of \<open>selectLevel\<close> reads and writes the
  local \<open>r\<close>: it either returns the index (leaving \<open>r\<close>) or subtracts \<open>p\<close> from \<open>r\<close>.
\<close>

fun forEach :: "('a \<Rightarrow> nat \<Rightarrow> 's \<Rightarrow> 'r \<times> 's) \<Rightarrow> 'a list \<Rightarrow> nat \<Rightarrow> 's \<Rightarrow> 's" where
  "forEach f [] i s = s"
| "forEach f (x # xs) i s = forEach f xs (Suc i) (snd (f x i s))"

definition selectLevel_callback :: "real \<Rightarrow> nat \<Rightarrow> real \<Rightarrow> int option \<times> real" where
  "selectLevel_callback p i r = (if r < p then (Some (int i), r) else (None, r - p))"

text \<open>\<open>selectLevel\<close>, with the sample \<open>r = Math.random()\<close> as an argument.\<close>

definition selectLevel :: "real list \<Rightarrow> real \<Rightarrow> int" where
  "selectLevel ps r =
     (let r' = forEach selectLevel_callback ps 0 r in int (length ps) - 1)"

text \<open>
  The level draw in the words of the specification: walk the table subtracting each
  \<open>p(i)\<close> until \<open>r < p(i)\<close> and return that index; when the table is exhausted, the cap.
\<close>

fun spec_walk :: "real list \<Rightarrow> nat \<Rightarrow> real \<Rightarrow> nat option" where
  "spec_walk [] i r = None"
| "spec_walk (p # ps) i r = (if r < p then Some i else spec_walk ps (Suc i) (r - p))"

definition spec_selectLevel :: "real list \<Rightarrow> real \<Rightarrow> int" where
  "spec_selectLevel ps r =
     (case spec_walk ps 0 r of Some i \<Rightarrow> int i | None \<Rightarrow> int (length ps) - 1)"

text \<open>
  The table \<open>set_probs\<close> computes for \<open>M = 16\<close>: \<open>p(i) = 16\<^sup>-\<^sup>i \<sqdot> (1 - 1/16)\<close>, which falls
  below \<open>1e-9\<close> at \<open>i = 8\<close>, so the table has the eight entries \<open>p(0), \<dots>, p(7)\<close>.
\<close>

definition probs16 :: "real list" where
  "probs16 = map (\<lambda>i. (15 / 16) / 16 ^ i) [0..<8]"

text \<open>
  The table for \<open>M = 2\<close>: \<open>p(i) = 2\<^sup>-\<^sup>i \<sqdot> (1 - 1/2)\<close>, which falls below \<open>1e-9\<close> at
  \<open>i = 29\<close>, so the table has the 29 entries \<open>p(0), \<dots>, p(28)\<close>.
\<close>

definition probs2 :: "real list" where
  "probs2 = map (\<lambda>i. (1 / 2) / 2 ^ i) [0..<29]"

section \<open>Construction\<close>

definition getMetric :: "string \<Rightarrow> simfun result" where
  "getMetric m =
     (if m = ''cosine'' then Ok cosineSimilarity
      else if m = ''euclidean'' then Ok euclideanSimilarity
      else Throw InvalidMetric)"

text \<open>
  The constructor. \<open>set_probs\<close> fills the table with IEEE doubles computed by \<open>Math.exp\<close>
  and \<open>Math.log\<close> in a loop that ends when an entry falls below \<open>1e-9\<close>; the embedding
  takes the function from \<open>M\<close> to the finished table as the parameter \<open>table\<close>.
\<close>

definition HNSW_new :: "(int \<Rightarrow> real list) \<Rightarrow> int \<Rightarrow> int \<Rightarrow> int option \<Rightarrow> string \<Rightarrow> HNSW result" where
  "HNSW_new table m efc dm mtr =
     (case getMetric mtr of
        Throw e \<Rightarrow> Throw e
      | Ok f \<Rightarrow> Ok \<lparr> metric = mtr, similarityFunction = f, d = dm, M = m,
                    efConstruction = efc, levelMax = int (length (table m)) - 1,
                    entryPointId = [], nodes = [], probs = table m \<rparr>)"

section \<open>Node storage\<close>

definition getNode :: "HNSW \<Rightarrow> string \<Rightarrow> AstroNode option" where
  "getNode s k = map_of (nodes s) k"

text \<open>
  Reading a field of a node object through a reference the code holds. Every reference
  the engine keeps in a queue or an array was obtained from \<open>nodes.get\<close> and checked, and
  no entry is removed while an operation runs, so the default is never read.
\<close>

definition nodeAt :: "HNSW \<Rightarrow> string \<Rightarrow> AstroNode" where
  "nodeAt s k =
     (case getNode s k of
        Some n \<Rightarrow> n
      | None \<Rightarrow> \<lparr> uniqueid = [], level = 0, vector = [], neighbors = [], deleted = False \<rparr>)"

text \<open>\<open>arr[l]\<close> and \<open>arr[l] = v\<close> on a JavaScript array: a write past the end leaves holes.\<close>

definition nb_get :: "string list option list \<Rightarrow> nat \<Rightarrow> string list option" where
  "nb_get nbs l = (if l < length nbs then nbs ! l else None)"

definition nb_set :: "string list option list \<Rightarrow> nat \<Rightarrow> string list \<Rightarrow> string list option list" where
  "nb_set nbs l v =
     (if l < length nbs then nbs[l := Some v]
      else nbs @ replicate (l - length nbs) None @ [Some v])"

text \<open>\<open>node.neighbors[level]\<close> for the node object stored under \<open>k\<close>.\<close>

definition neighborsAt :: "HNSW \<Rightarrow> string \<Rightarrow> nat \<Rightarrow> string list option" where
  "neighborsAt s k l = nb_get (neighbors (nodeAt s k)) l"

text \<open>\<open>node.neighbors[level] = v\<close>: the object is mutated in place, in the map.\<close>

definition setNeighbors :: "string \<Rightarrow> nat \<Rightarrow> string list \<Rightarrow> HNSW \<Rightarrow> HNSW" where
  "setNeighbors k l v s =
     s\<lparr>nodes := AList.map_entry k (\<lambda>n. n\<lparr>neighbors := nb_set (neighbors n) l v\<rparr>) (nodes s)\<rparr>"

text \<open>\<open>if (!node.neighbors[level]) node.neighbors[level] = [];\<close>\<close>

definition initLevel :: "string \<Rightarrow> nat \<Rightarrow> HNSW \<Rightarrow> HNSW" where
  "initLevel k l s = (case neighborsAt s k l of None \<Rightarrow> setNeighbors k l [] s | Some v \<Rightarrow> s)"

text \<open>\<open>node.neighbors[level]\<close> read as a list, where the code has just initialised it.\<close>

definition readLevel :: "HNSW \<Rightarrow> string \<Rightarrow> nat \<Rightarrow> string list" where
  "readLevel s k l = (case neighborsAt s k l of None \<Rightarrow> [] | Some v \<Rightarrow> v)"

text \<open>
  The comparator every queue of the engine is built with: most similar to \<open>q\<close> first.
\<close>

definition bySimilarity :: "HNSW \<Rightarrow> vec \<Rightarrow> string \<Rightarrow> string \<Rightarrow> real" where
  "bySimilarity s q a b =
     similarityFunction s q (vector (nodeAt s b)) - similarityFunction s q (vector (nodeAt s a))"

section \<open>Layer search\<close>

text \<open>
  The seeding loop of \<open>searchLayer\<close>. Reading \<open>ep.uniqueid\<close> of an entry point that is
  \<open>undefined\<close> throws a \<open>TypeError\<close>. The triple is \<open>visited\<close>, \<open>candidates\<close> and
  \<open>foundNearestNeighbors\<close>.
\<close>

type_synonym layer = "string set \<times> string list \<times> string list"

fun seedEntryPoints :: "HNSW \<Rightarrow> vec \<Rightarrow> string list \<Rightarrow> layer \<Rightarrow> layer result" where
  "seedEntryPoints s q [] (V, C, W) = Ok (V, C, W)"
| "seedEntryPoints s q (ep # eps) (V, C, W) =
     (case getNode s ep of
        None \<Rightarrow> Throw TypeError
      | Some n \<Rightarrow>
          if uniqueid n \<notin> V
          then seedEntryPoints s q eps
                 (insert (uniqueid n) V, push (bySimilarity s q) ep C, push (bySimilarity s q) ep W)
          else seedEntryPoints s q eps (V, C, W))"

text \<open>
  The test \<open>foundNearestNeighbors.size() < ef || neighborSimilarity >
  similarityFunction(query, furthest.vector)\<close>: \<open>furthest.vector\<close> is read only when the
  size test fails, and throws when the result queue is empty (\<open>getLast\<close> gave
  \<open>undefined\<close>).
\<close>

definition acceptNeighbor :: "HNSW \<Rightarrow> vec \<Rightarrow> int \<Rightarrow> AstroNode \<Rightarrow> string list \<Rightarrow> bool result" where
  "acceptNeighbor s q ef neighbor W =
     (if int (length W) < ef then Ok True
      else (case getLast W of
              None \<Rightarrow> Throw TypeError
            | Some furthest \<Rightarrow>
                Ok (similarityFunction s q (vector neighbor)
                      > similarityFunction s q (vector (nodeAt s furthest)))))"

text \<open>
  \<open>foundNearestNeighbors.push(neighbor)\<close>, then \<open>popLast\<close> when the size exceeds \<open>ef\<close>.
\<close>

definition pushFound :: "('a \<Rightarrow> 'a \<Rightarrow> real) \<Rightarrow> int \<Rightarrow> 'a \<Rightarrow> 'a list \<Rightarrow> 'a list" where
  "pushFound compare ef item W =
     (if int (length (push compare item W)) > ef then popLast (push compare item W)
      else push compare item W)"

text \<open>
  The loop over \<open>current.neighbors[level]\<close>. \<open>nodes.get(neighborId)!\<close> may be \<open>undefined\<close>,
  and then \<open>neighbor.vector\<close> throws. The loop changes no node.
\<close>

fun visitNeighbors :: "HNSW \<Rightarrow> vec \<Rightarrow> int \<Rightarrow> string list \<Rightarrow> layer \<Rightarrow> layer result" where
  "visitNeighbors s q ef [] (V, C, W) = Ok (V, C, W)"
| "visitNeighbors s q ef (neighborId # ids) (V, C, W) =
     (if neighborId \<noteq> [] \<and> neighborId \<notin> V then
        (case getNode s neighborId of
           None \<Rightarrow> Throw TypeError
         | Some neighbor \<Rightarrow>
             (case acceptNeighbor s q ef neighbor W of
                Throw e \<Rightarrow> Throw e
              | Ok True \<Rightarrow>
                  visitNeighbors s q ef ids
                    (insert neighborId V, push (bySimilarity s q) neighborId C,
                     pushFound (bySimilarity s q) ef neighborId W)
              | Ok False \<Rightarrow> visitNeighbors s q ef ids (insert neighborId V, C, W)))
      else visitNeighbors s q ef ids (V, C, W))"

text \<open>Every id that occurs in some adjacency list of the index.\<close>

definition levelIds :: "string list option list \<Rightarrow> string set" where
  "levelIds nbs = (\<Union>e \<in> set nbs. (case e of None \<Rightarrow> {} | Some ids \<Rightarrow> set ids))"

definition adjacentIds :: "HNSW \<Rightarrow> string set" where
  "adjacentIds s = (\<Union>kn \<in> set (nodes s). levelIds (neighbors (snd kn)))"

text \<open>
  The \<open>while (!candidates.isEmpty())\<close> loop of \<open>searchLayer\<close>. It stores an empty list
  in \<open>current.neighbors[level]\<close> when that entry is missing. On a throw the index is left
  as it is at that moment.
\<close>

function searchLoop :: "vec \<Rightarrow> int \<Rightarrow> nat \<Rightarrow> layer \<Rightarrow> HNSW \<Rightarrow> string list result \<times> HNSW" where
  "searchLoop q ef lvl (V, C, W) s =
     (case C of
        [] \<Rightarrow> (Ok W, s)
      | current # C' \<Rightarrow>
          (case getLast W of
             None \<Rightarrow> (Throw TypeError, s)
           | Some furthest \<Rightarrow>
               if similarityFunction s q (vector (nodeAt s current))
                    < similarityFunction s q (vector (nodeAt s furthest))
               then (Ok W, s)
               else
                 (case visitNeighbors (initLevel current lvl s) q ef
                         (readLevel (initLevel current lvl s) current lvl) (V, C', W) of
                    Throw e \<Rightarrow> (Throw e, initLevel current lvl s)
                  | Ok st \<Rightarrow> searchLoop q ef lvl st (initLevel current lvl s))))"
  by pat_completeness auto

definition searchLayer :: "vec \<Rightarrow> string list \<Rightarrow> int \<Rightarrow> nat \<Rightarrow> HNSW \<Rightarrow> string list result \<times> HNSW" where
  "searchLayer q entryPoints ef lvl s =
     (case seedEntryPoints s q entryPoints ({}, [], []) of
        Throw e \<Rightarrow> (Throw e, s)
      | Ok st \<Rightarrow> searchLoop q ef lvl st s)"

section \<open>Insertion\<close>

definition selectNeighbors :: "'a list \<Rightarrow> int \<Rightarrow> 'a list" where
  "selectNeighbors nearestNeighbors numbNeighborsToReturn =
     (if numbNeighborsToReturn \<ge> int (length nearestNeighbors) then nearestNeighbors
      else slice0 nearestNeighbors numbNeighborsToReturn)"

text \<open>
  \<open>addBidirectionalConnections(nodeA, nodeB, level)\<close>, statement by statement. The two
  arguments may be the same object; the writes go through the map, so each statement
  sees what the ones before it did. The six statements are, innermost first: the two
  initialisations, the two filters that drop empty ids, and the two conditional pushes.
\<close>

definition filterEmptyIds :: "string \<Rightarrow> nat \<Rightarrow> HNSW \<Rightarrow> HNSW" where
  "filterEmptyIds k l s = setNeighbors k l (filter (\<lambda>u. u \<noteq> []) (readLevel s k l)) s"

definition pushIfAbsent :: "string \<Rightarrow> nat \<Rightarrow> string \<Rightarrow> HNSW \<Rightarrow> HNSW" where
  "pushIfAbsent k l other s =
     (if uniqueid (nodeAt s other) \<notin> set (readLevel s k l)
      then setNeighbors k l (readLevel s k l @ [uniqueid (nodeAt s other)]) s
      else s)"

definition addBidirectionalConnections :: "string \<Rightarrow> string \<Rightarrow> nat \<Rightarrow> HNSW \<Rightarrow> HNSW" where
  "addBidirectionalConnections a b l s =
     pushIfAbsent b l a
       (pushIfAbsent a l b
          (filterEmptyIds b l
             (filterEmptyIds a l
                (initLevel b l
                   (initLevel a l s)))))"

text \<open>
  \<open>shrinkConnectionsIfNeeded(node, level)\<close>. \<open>neighbors.length\<close> throws when the level is
  missing. The value it returns is not used by its caller.
\<close>

definition oldNeighborsQueue :: "HNSW \<Rightarrow> string \<Rightarrow> string list \<Rightarrow> string list" where
  "oldNeighborsQueue s node nbrs =
     fold (\<lambda>neighborId Q.
             (case getNode s neighborId of
                None \<Rightarrow> Q
              | Some neighborNode \<Rightarrow>
                  push (bySimilarity s (vector (nodeAt s node))) neighborId Q))
          nbrs []"

definition shrinkConnectionsIfNeeded :: "string \<Rightarrow> nat \<Rightarrow> HNSW \<Rightarrow> unit result \<times> HNSW" where
  "shrinkConnectionsIfNeeded node l s =
     (case neighborsAt s node l of
        None \<Rightarrow> (Throw TypeError, s)
      | Some nbrs \<Rightarrow>
          if int (length nbrs) > M s then
            (Ok (), setNeighbors node l
                      (map (\<lambda>k. uniqueid (nodeAt s k))
                         (selectNeighbors (oldNeighborsQueue s node nbrs) (M s))) s)
          else (Ok (), s))"

text \<open>The levels a loop \<open>for (let i = hi; i >= lo; i--)\<close> visits.\<close>

function downFrom :: "int \<Rightarrow> int \<Rightarrow> int list" where
  "downFrom hi lo = (if hi \<ge> lo then hi # downFrom (hi - 1) lo else [])"
  by pat_completeness auto
termination
  by (relation "measure (\<lambda>(hi, lo). nat (hi - lo + 1))") auto

declare downFrom.simps [simp del]

text \<open>
  The first loop of \<open>addNodeToGraphOptimized\<close>: one greedy step per level above the
  node's level, with \<open>ef = 1\<close>.
\<close>

fun descend :: "vec \<Rightarrow> int list \<Rightarrow> string list \<Rightarrow> HNSW \<Rightarrow> string list result \<times> HNSW" where
  "descend q [] entryPoints s = (Ok entryPoints, s)"
| "descend q (i # levels) entryPoints s =
     (case searchLayer q entryPoints 1 (nat i) s of
        (Throw e, s') \<Rightarrow> (Throw e, s')
      | (Ok found, s') \<Rightarrow>
          (case popFirst found of
             (None, rest) \<Rightarrow> descend q levels entryPoints s'
           | (Some closestFoundElement, rest) \<Rightarrow> descend q levels [closestFoundElement] s'))"

text \<open>The two loops over \<open>closestNeighborsAtLevel\<close>.\<close>

fun linkNeighbors :: "string \<Rightarrow> string list \<Rightarrow> nat \<Rightarrow> HNSW \<Rightarrow> HNSW" where
  "linkNeighbors node [] l s = s"
| "linkNeighbors node (c # cs) l s =
     (case getNode s (uniqueid (nodeAt s c)) of
        None \<Rightarrow> linkNeighbors node cs l s
      | Some neighborNode \<Rightarrow>
          linkNeighbors node cs l (addBidirectionalConnections node (uniqueid (nodeAt s c)) l s))"

fun shrinkNeighbors :: "string list \<Rightarrow> nat \<Rightarrow> HNSW \<Rightarrow> unit result \<times> HNSW" where
  "shrinkNeighbors [] l s = (Ok (), s)"
| "shrinkNeighbors (c # cs) l s =
     (case getNode s (uniqueid (nodeAt s c)) of
        None \<Rightarrow> shrinkNeighbors cs l s
      | Some neighborNode \<Rightarrow>
          (case shrinkConnectionsIfNeeded (uniqueid (nodeAt s c)) l s of
             (Throw e, s') \<Rightarrow> (Throw e, s')
           | (Ok u, s') \<Rightarrow> shrinkNeighbors cs l s'))"

text \<open>The second loop of \<open>addNodeToGraphOptimized\<close>, from \<open>min(levelMax, level)\<close> to 0.\<close>

fun connectLevels :: "string \<Rightarrow> int list \<Rightarrow> string list \<Rightarrow> HNSW \<Rightarrow> unit result \<times> HNSW" where
  "connectLevels node [] entryPoints s = (Ok (), s)"
| "connectLevels node (i # levels) entryPoints s =
     (case searchLayer (vector (nodeAt s node)) entryPoints (efConstruction s) (nat i) s of
        (Throw e, s1) \<Rightarrow> (Throw e, s1)
      | (Ok found, s1) \<Rightarrow>
          (case shrinkNeighbors (selectNeighbors found (M s1)) (nat i)
                  (linkNeighbors node (selectNeighbors found (M s1)) (nat i) s1) of
             (Throw e, s2) \<Rightarrow> (Throw e, s2)
           | (Ok u, s2) \<Rightarrow> connectLevels node levels found s2))"

text \<open>
  \<open>addNodeToGraphOptimized(node, nodeInsertionLevel)\<close>; \<open>node\<close> is the object stored in the
  map. Its only caller passes a level drawn by \<open>selectLevel\<close>, which is at least -1, so the
  levels both loops visit are not negative.
\<close>

definition addNodeToGraphOptimized :: "string \<Rightarrow> int \<Rightarrow> HNSW \<Rightarrow> unit result \<times> HNSW" where
  "addNodeToGraphOptimized node nodeInsertionLevel s =
     (if entryPointId s = [] then (Ok (), s\<lparr>entryPointId := uniqueid (nodeAt s node)\<rparr>)
      else
        (case descend (vector (nodeAt s node)) (downFrom (levelMax s) (nodeInsertionLevel + 1))
                (case getNode s (entryPointId s) of None \<Rightarrow> [] | Some ep \<Rightarrow> [entryPointId s]) s of
           (Throw e, s1) \<Rightarrow> (Throw e, s1)
         | (Ok entryPoints, s1) \<Rightarrow>
             (case connectLevels node (downFrom (min (levelMax s1) nodeInsertionLevel) 0)
                     entryPoints s1 of
                (Throw e, s2) \<Rightarrow> (Throw e, s2)
              | (Ok u, s2) \<Rightarrow>
                  (Ok (), if nodeInsertionLevel > levelMax s2
                          then s2\<lparr>levelMax := nodeInsertionLevel,
                                  entryPointId := uniqueid (nodeAt s2 node)\<rparr>
                          else s2))))"

text \<open>
  \<open>addPoint(uniqueid, vector)\<close>, with the sample \<open>r\<close> that \<open>selectLevel\<close> draws. A throw leaves
  the index as it is at that moment. \<open>new AstroNode(uniqueid, vector, level, M)\<close> has no
  adjacency and is not deleted (\<open>storeNode\<close>); \<open>raiseLevelMax\<close> is the statement
  \<open>this.levelMax = Math.max(this.levelMax, node.level)\<close>.
\<close>

definition storeNode :: "string \<Rightarrow> vec \<Rightarrow> int \<Rightarrow> HNSW \<Rightarrow> HNSW" where
  "storeNode uid v nodeInsertionLevel s =
     s\<lparr>nodes := AList.update uid
            \<lparr> uniqueid = uid, level = nodeInsertionLevel, vector = v,
              neighbors = [], deleted = False \<rparr> (nodes s)\<rparr>"

definition raiseLevelMax :: "string \<Rightarrow> HNSW \<Rightarrow> HNSW" where
  "raiseLevelMax uid s = s\<lparr>levelMax := max (levelMax s) (level (nodeAt s uid))\<rparr>"

definition addPoint :: "string \<Rightarrow> vec \<Rightarrow> real \<Rightarrow> HNSW \<Rightarrow> unit result \<times> HNSW" where
  "addPoint uid v r s =
     (if v = [] then (Ok (), s)
      else if d s \<noteq> None \<and> Some (int (length v)) \<noteq> d s then (Throw DimensionMismatch, s)
      else
        addNodeToGraphOptimized uid (selectLevel (probs s) r)
          (raiseLevelMax uid
             (storeNode uid v (selectLevel (probs s) r)
                (s\<lparr>d := Some (int (length v))\<rparr>))))"

section \<open>Soft delete, update, bulk build\<close>

definition removePoint :: "string \<Rightarrow> HNSW \<Rightarrow> HNSW" where
  "removePoint uid s =
     (case getNode s uid of
        None \<Rightarrow> s
      | Some node \<Rightarrow> s\<lparr>nodes := AList.update uid (node\<lparr>deleted := True\<rparr>) (nodes s)\<rparr>)"

definition updatePoint :: "string \<Rightarrow> vec \<Rightarrow> real \<Rightarrow> HNSW \<Rightarrow> unit result \<times> HNSW" where
  "updatePoint uid newVector r s =
     (case getNode s uid of
        None \<Rightarrow> addPoint uid newVector r s
      | Some node \<Rightarrow>
          addPoint uid newVector r
            (s\<lparr>nodes := AList.update uid (node\<lparr>deleted := True\<rparr>) (nodes s)\<rparr>))"

text \<open>Each item of \<open>buildIndex\<close> comes with the sample drawn for it.\<close>

fun addPoints :: "(string \<times> vec \<times> real) list \<Rightarrow> HNSW \<Rightarrow> unit result \<times> HNSW" where
  "addPoints [] s = (Ok (), s)"
| "addPoints ((uid, v, r) # items) s =
     (case addPoint uid v r s of
        (Throw e, s') \<Rightarrow> (Throw e, s')
      | (Ok u, s') \<Rightarrow> addPoints items s')"


section \<open>Top-K search\<close>





definition scoreNode :: "HNSW \<Rightarrow> vec \<Rightarrow> string \<Rightarrow> ScoredNode" where
  "scoreNode s query k =
     AstroNode.extend (nodeAt s k) \<lparr> score = similarityFunction s query (vector (nodeAt s k)) \<rparr>"




section \<open>Serialization\<close>

text \<open>
  The plain objects \<open>toJSON\<close> produces and \<open>fromJSON\<close> reads. \<open>fromJSON\<close> takes any object,
  so the fields \<open>AstroNode.parse\<close> has a default for may be absent.
\<close>

record NodeJSON =
  j_uniqueid :: string
  j_level :: int
  j_vector :: vec
  j_neighbors :: "string list option list option"
  j_deleted :: "bool option"

record IndexJSON =
  j_M :: int
  j_efConstruction :: int
  j_levelMax :: int
  j_entryPointId :: string
  j_nodes :: "(string \<times> NodeJSON) list"

text \<open>\<open>AstroNode.toJSON\<close>: \<open>Array.prototype.map\<close> keeps the holes of \<open>neighbors\<close>.\<close>

definition node_toJSON :: "AstroNode \<Rightarrow> NodeJSON" where
  "node_toJSON n =
     \<lparr> j_uniqueid = uniqueid n, j_level = level n, j_vector = vector n,
       j_neighbors = Some (map (map_option (\<lambda>lv. lv)) (neighbors n)),
       j_deleted = Some (deleted n) \<rparr>"

text \<open>\<open>AstroNode.parse\<close>, through the constructor's defaults.\<close>

definition node_parse :: "NodeJSON \<Rightarrow> AstroNode" where
  "node_parse obj =
     \<lparr> uniqueid = j_uniqueid obj, level = j_level obj, vector = j_vector obj,
       neighbors = (case j_neighbors obj of None \<Rightarrow> [] | Some nbs \<Rightarrow> nbs),
       deleted = (case j_deleted obj of None \<Rightarrow> False | Some b \<Rightarrow> b) \<rparr>"

definition toJSON :: "HNSW \<Rightarrow> IndexJSON" where
  "toJSON s =
     \<lparr> j_M = M s, j_efConstruction = efConstruction s, j_levelMax = levelMax s,
       j_entryPointId = entryPointId s,
       j_nodes = map (\<lambda>(uid, node). (uid, node_toJSON node)) (nodes s) \<rparr>"

text \<open>\<open>new Map(entries)\<close> sets the entries one after the other.\<close>

definition Map_new :: "('k \<times> 'v) list \<Rightarrow> ('k \<times> 'v) list" where
  "Map_new entries = fold (\<lambda>(k, v) m. AList.update k v m) entries []"

text \<open>
  \<open>HNSW.fromJSON\<close>. \<open>new HNSW(json.M, json.efConstruction)\<close> leaves the dimension and the
  metric to the constructor's defaults. \<open>float32\<close> is the rounding \<open>new Float32Array\<close>
  applies to each element.
\<close>

definition fromJSON :: "(int \<Rightarrow> real list) \<Rightarrow> (real \<Rightarrow> real) \<Rightarrow> IndexJSON \<Rightarrow> HNSW result" where
  "fromJSON table float32 json =
     (case HNSW_new table (j_M json) (j_efConstruction json) None ''cosine'' of
        Throw e \<Rightarrow> Throw e
      | Ok hnsw \<Rightarrow>
          Ok (hnsw\<lparr>levelMax := j_levelMax json, entryPointId := j_entryPointId json,
                   nodes := Map_new
                     (map (\<lambda>(uid, node). (uid, node_parse (node\<lparr>j_vector := map float32 (j_vector node)\<rparr>)))
                        (j_nodes json))\<rparr>))"

section \<open>Rebuild (\<open>astrovault.ts\<close>)\<close>

text \<open>
  \<open>processNode(index)\<close> of \<open>rebuildGraphNodes\<close>, which reschedules itself for the next index;
  \<open>rs index\<close> is the sample drawn while the node at \<open>index\<close> is inserted. An array is truthy
  even when empty, so \<open>node.vector\<close> never blocks the call. A throw of \<open>addPoint\<close> rejects the
  call and nothing schedules the next one.
\<close>

function processNode :: "(nat \<Rightarrow> real) \<Rightarrow> AstroNode list \<Rightarrow> nat \<Rightarrow> HNSW \<Rightarrow> unit result \<times> HNSW" where
  "processNode rs oldNodes index s =
     (if index \<ge> length oldNodes then (Ok (), s)
      else if \<not> deleted (oldNodes ! index) \<and> uniqueid (oldNodes ! index) \<noteq> [] then
        (case addPoint (uniqueid (oldNodes ! index)) (vector (oldNodes ! index)) (rs index) s of
           (Throw e, s') \<Rightarrow> (Throw e, s')
         | (Ok u, s') \<Rightarrow> processNode rs oldNodes (index + 1) s')
      else processNode rs oldNodes (index + 1) s)"
  by pat_completeness auto
termination
  by (relation "measure (\<lambda>(rs, oldNodes, index, s). length oldNodes - index)") auto

declare processNode.simps [simp del]

definition rebuildGraphNodes :: "(nat \<Rightarrow> real) \<Rightarrow> HNSW \<Rightarrow> unit result \<times> HNSW" where
  "rebuildGraphNodes rs s =
     processNode rs (map snd (nodes s)) 0 (s\<lparr>nodes := [], entryPointId := []\<rparr>)"

section \<open>Frame of a search\<close>

text \<open>
  What a layer search may do to a node: replace a missing adjacency level by the empty
  list. \<open>materialised nbs nbs'\<close> says that \<open>nbs'\<close> is \<open>nbs\<close> up to such replacements.
\<close>

definition materialised :: "string list option list \<Rightarrow> string list option list \<Rightarrow> bool" where
  "materialised nbs nbs' \<longleftrightarrow>
     length nbs \<le> length nbs' \<and>
     (\<forall>l \<in> {..<length nbs'}.
        nb_get nbs' l = nb_get nbs l \<or> (nb_get nbs l = None \<and> nb_get nbs' l = Some []))"

definition sameNode :: "AstroNode \<Rightarrow> AstroNode \<Rightarrow> bool" where
  "sameNode n n' \<longleftrightarrow>
     uniqueid n' = uniqueid n \<and> level n' = level n \<and> vector n' = vector n \<and>
     deleted n' = deleted n \<and> materialised (neighbors n) (neighbors n')"

definition sameEntry :: "string \<times> AstroNode \<Rightarrow> string \<times> AstroNode \<Rightarrow> bool" where
  "sameEntry kn kn' \<longleftrightarrow> fst kn' = fst kn \<and> sameNode (snd kn) (snd kn')"

definition unchangedButInitialised :: "HNSW \<Rightarrow> HNSW \<Rightarrow> bool" where
  "unchangedButInitialised s s' \<longleftrightarrow>
     metric s' = metric s \<and> similarityFunction s' = similarityFunction s \<and> d s' = d s \<and>
     M s' = M s \<and> efConstruction s' = efConstruction s \<and> levelMax s' = levelMax s \<and>
     entryPointId s' = entryPointId s \<and> probs s' = probs s \<and>
     list_all2 sameEntry (nodes s) (nodes s')"

section \<open>Well-formed indexes\<close>

text \<open>
  Every id the engine stores in an adjacency list is the key of a stored node, nodes are
  never removed from the map, and the entry point is the id of a stored node. These are
  the conditions under which no reference the engine follows is \<open>undefined\<close>.
\<close>

definition closedAdjacency :: "HNSW \<Rightarrow> bool" where
  "closedAdjacency s \<longleftrightarrow> (\<forall>x \<in> adjacentIds s. x \<noteq> [] \<longrightarrow> getNode s x \<noteq> None)"

definition entryResolves :: "HNSW \<Rightarrow> bool" where
  "entryResolves s \<longleftrightarrow> (entryPointId s \<noteq> [] \<longrightarrow> getNode s (entryPointId s) \<noteq> None)"

definition keysMatch :: "HNSW \<Rightarrow> bool" where
  "keysMatch s \<longleftrightarrow> (\<forall>kn \<in> set (nodes s). uniqueid (snd kn) = fst kn)"

text \<open>
  The keys of a \<open>Map\<close> are distinct, and every node is stored under its own id.
\<close>

definition wellFormed :: "HNSW \<Rightarrow> bool" where
  "wellFormed s \<longleftrightarrow> distinct (map fst (nodes s)) \<and> keysMatch s \<and> closedAdjacency s"

text \<open>
  What linking and shrinking do: they rewrite adjacency lists and nothing else.
\<close>

definition sameFields :: "string \<times> AstroNode \<Rightarrow> string \<times> AstroNode \<Rightarrow> bool" where
  "sameFields kn kn' \<longleftrightarrow>
     fst kn' = fst kn \<and> uniqueid (snd kn') = uniqueid (snd kn) \<and> level (snd kn') = level (snd kn) \<and>
     vector (snd kn') = vector (snd kn) \<and> deleted (snd kn') = deleted (snd kn)"

definition adjacencyOnly :: "HNSW \<Rightarrow> HNSW \<Rightarrow> bool" where
  "adjacencyOnly s s' \<longleftrightarrow>
     metric s' = metric s \<and> similarityFunction s' = similarityFunction s \<and> d s' = d s \<and>
     M s' = M s \<and> efConstruction s' = efConstruction s \<and> levelMax s' = levelMax s \<and>
     entryPointId s' = entryPointId s \<and> probs s' = probs s \<and>
     list_all2 sameFields (nodes s) (nodes s')"

definition keepsLevels :: "HNSW \<Rightarrow> HNSW \<Rightarrow> bool" where
  "keepsLevels s s' \<longleftrightarrow> (\<forall>k l. neighborsAt s k l \<noteq> None \<longrightarrow> neighborsAt s' k l \<noteq> None)"

section \<open>Graph invariants\<close>

text \<open>
  Symmetric adjacency as the specification states it: for every live id \<open>x\<close> in the map,
  every level up to the level of \<open>x\<close> and every \<open>y\<close> in the adjacency list of \<open>x\<close> at that
  level, \<open>y\<close> is stored and lists \<open>x\<close> at that level.
\<close>

definition symmetricAdjacency :: "HNSW \<Rightarrow> bool" where
  "symmetricAdjacency s \<longleftrightarrow>
     (\<forall>kn \<in> set (nodes s). \<not> deleted (snd kn) \<longrightarrow>
        (\<forall>l \<in> {..<length (neighbors (snd kn))}. int l \<le> level (snd kn) \<longrightarrow>
           (\<forall>y \<in> set (readLevel s (fst kn) l).
              getNode s y \<noteq> None \<and> fst kn \<in> set (readLevel s y l))))"

text \<open>No node lists itself, and no adjacency list holds an id twice.\<close>

definition noSelfLoops :: "HNSW \<Rightarrow> bool" where
  "noSelfLoops s \<longleftrightarrow>
     (\<forall>kn \<in> set (nodes s). \<forall>l \<in> {..<length (neighbors (snd kn))}.
        fst kn \<notin> set (readLevel s (fst kn) l))"

definition listsDistinct :: "HNSW \<Rightarrow> bool" where
  "listsDistinct s \<longleftrightarrow>
     (\<forall>kn \<in> set (nodes s). \<forall>l \<in> {..<length (neighbors (snd kn))}.
        distinct (readLevel s (fst kn) l))"

text \<open>
  The invariants of section 3 of the specification that the insertion of a new id relies
  on, with symmetric adjacency: no empty id as a key or in an adjacency list, the entry
  point stored, and the index well-formed.
\<close>

definition graphInvariant :: "HNSW \<Rightarrow> bool" where
  "graphInvariant s \<longleftrightarrow>
     wellFormed s \<and> [] \<notin> set (map fst (nodes s)) \<and> [] \<notin> adjacentIds s \<and> entryResolves s \<and>
     listsDistinct s \<and> noSelfLoops s \<and> symmetricAdjacency s"

text \<open>The same, said of the list \<open>readLevel s k l\<close> of each key and level.\<close>

definition linkInvariant :: "HNSW \<Rightarrow> bool" where
  "linkInvariant s \<longleftrightarrow>
     wellFormed s \<and> [] \<notin> set (map fst (nodes s)) \<and>
     (\<forall>k l. [] \<notin> set (readLevel s k l)) \<and>
     (\<forall>k l. distinct (readLevel s k l)) \<and>
     (\<forall>k l. k \<notin> set (readLevel s k l)) \<and>
     (\<forall>k l y. getNode s k \<noteq> None \<and> \<not> deleted (nodeAt s k) \<and> int l \<le> level (nodeAt s k)
                \<and> y \<in> set (readLevel s k l)
             \<longrightarrow> k \<in> set (readLevel s y l))"

section \<open>Example indexes\<close>

text \<open>
  \<open>new HNSW()\<close> with the defaults \<open>M = 16\<close>, \<open>efConstruction = 200\<close>, no dimension and the
  cosine metric, and the index after \<open>addPoint("a", [1, 0, 0])\<close>.
\<close>

definition index0 :: HNSW where
  "index0 = \<lparr> metric = ''cosine'', similarityFunction = cosineSimilarity, d = None, M = 16,
               efConstruction = 200, levelMax = 7, entryPointId = [], nodes = [],
               probs = probs16 \<rparr>"

definition node_a :: AstroNode where
  "node_a = \<lparr> uniqueid = ''a'', level = 7, vector = [1, 0, 0], neighbors = [], deleted = False \<rparr>"

definition index_a :: HNSW where
  "index_a = index0\<lparr> d := Some 3, entryPointId := ''a'', nodes := [(''a'', node_a)] \<rparr>"

text \<open>
  Parameters of the examples: the table function at \<open>M = 16\<close> and at \<open>M = 2\<close>, a rounding
  that leaves the (exactly representable) example vectors alone, and the sample \<open>0.5\<close> at
  every draw.
\<close>

definition exampleTable :: "int \<Rightarrow> real list" where
  "exampleTable m = (if m = 16 then probs16 else if m = 2 then probs2 else [])"

definition exactFloat32 :: "real \<Rightarrow> real" where
  "exactFloat32 x = x"

definition halfSamples :: "nat \<Rightarrow> real" where
  "halfSamples i = 1 / 2"

text \<open>\<open>new HNSW(16, 200, null, "euclidean")\<close>.\<close>

definition index_euclidean :: HNSW where
  "index_euclidean = \<lparr> metric = ''euclidean'', similarityFunction = euclideanSimilarity, d = None,
               M = 16, efConstruction = 200, levelMax = 7, entryPointId = [], nodes = [],
               probs = probs16 \<rparr>"

text \<open>The index after \<open>addPoint("a", [1, 0, 0])\<close> and \<open>removePoint("a")\<close>.\<close>

definition index_a_removed :: HNSW where
  "index_a_removed = index_a\<lparr> nodes := [(''a'', node_a\<lparr>deleted := True\<rparr>)] \<rparr>"

text \<open>The index after \<open>addPoint("", [1, 0, 0])\<close> on the new index.\<close>

definition index_blank :: HNSW where
  "index_blank = index0\<lparr> d := Some 3,
     nodes := [([], \<lparr> uniqueid = [], level = 7, vector = [1, 0, 0], neighbors = [],
                       deleted = False \<rparr>)] \<rparr>"


text \<open>
  The index after \<open>addPoint("a", [1, 0, 0])\<close> and \<open>addPoint("b", [0, 1, 0])\<close>, and what
  \<open>updatePoint("b", [0, 0, 1])\<close> and \<open>updatePoint("a", [0, 0, 1])\<close> make of it.
\<close>

definition node_at_all_levels :: "string \<Rightarrow> vec \<Rightarrow> string list \<Rightarrow> AstroNode" where
  "node_at_all_levels uid v ids =
     \<lparr> uniqueid = uid, level = 7, vector = v,
       neighbors = [Some ids, Some ids, Some ids, Some ids, Some ids, Some ids, Some ids, Some ids],
       deleted = False \<rparr>"

definition index_ab :: HNSW where
  "index_ab = index_a\<lparr> nodes :=
     [(''a'', node_at_all_levels ''a'' [1, 0, 0] [''b'']),
      (''b'', node_at_all_levels ''b'' [0, 1, 0] [''a''])] \<rparr>"

definition index_ab_updated_b :: HNSW where
  "index_ab_updated_b = index_a\<lparr> nodes :=
     [(''a'', node_at_all_levels ''a'' [1, 0, 0] [''b'']),
      (''b'', node_at_all_levels ''b'' [0, 0, 1] [''b'', ''a''])] \<rparr>"

definition index_ab_updated_a :: HNSW where
  "index_ab_updated_a = index_a\<lparr> nodes :=
     [(''a'', node_at_all_levels ''a'' [0, 0, 1] [''a'']),
      (''b'', node_at_all_levels ''b'' [0, 1, 0] [''a''])] \<rparr>"













section \<open>Termination of the layer search\<close>

lemma length_push [simp]: "length (push c x xs) = Suc (length xs)"
  by (induction xs) auto

lemma nb_get_nb_set: "nb_get (nb_set nbs l v) l' = (if l' = l then Some v else nb_get nbs l')"
  by (auto simp: nb_get_def nb_set_def nth_append)

lemma visitNeighbors_measure:
  "visitNeighbors s q ef ids (V, C, W) = Ok (V', C', W') \<Longrightarrow> finite U \<Longrightarrow> set ids - {[]} \<subseteq> U
   \<Longrightarrow> 2 * card (U - V') + length C' \<le> 2 * card (U - V) + length C"
proof (induction ids arbitrary: V C W)
  case Nil
  then show ?case by simp
next
  case (Cons i ids)
  show ?case
  proof (cases "i \<noteq> [] \<and> i \<notin> V")
    case False
    with Cons show ?thesis by auto
  next
    case True
    then have iU: "i \<in> U - V" using Cons.prems by auto
    have fin: "finite (U - V)" using Cons.prems by simp
    have dec: "card (U - insert i V) < card (U - V)"
    proof -
      have "U - insert i V = (U - V) - {i}" by auto
      then show ?thesis using card_Diff1_less[OF fin iU] by simp
    qed
    from Cons.prems(1) True obtain nb where nb: "getNode s i = Some nb"
      by (auto split: option.splits)
    from Cons.prems(1) True nb obtain acc where acc: "acceptNeighbor s q ef nb W = Ok acc"
      by (auto split: result.splits)
    show ?thesis
    proof (cases acc)
      case True
      with Cons.prems(1) \<open>i \<noteq> [] \<and> i \<notin> V\<close> nb acc
      have "visitNeighbors s q ef ids (insert i V, push (bySimilarity s q) i C,
              pushFound (bySimilarity s q) ef i W)
            = Ok (V', C', W')" by simp
      from Cons.IH[OF this] Cons.prems(2,3)
      have "2 * card (U - V') + length C' \<le> 2 * card (U - insert i V) + Suc (length C)" by auto
      with dec show ?thesis by linarith
    next
      case False
      with Cons.prems(1) \<open>i \<noteq> [] \<and> i \<notin> V\<close> nb acc
      have "visitNeighbors s q ef ids (insert i V, C, W) = Ok (V', C', W')" by simp
      from Cons.IH[OF this] Cons.prems(2,3)
      have "2 * card (U - V') + length C' \<le> 2 * card (U - insert i V) + length C" by auto
      with dec show ?thesis by linarith
    qed
  qed
qed

lemma finite_adjacentIds: "finite (adjacentIds s)"
  by (auto simp: adjacentIds_def levelIds_def split: option.splits)

lemma levelIds_iff: "x \<in> levelIds nbs \<longleftrightarrow> (\<exists>l ids. nb_get nbs l = Some ids \<and> x \<in> set ids)"
proof
  assume "x \<in> levelIds nbs"
  then obtain ids where "Some ids \<in> set nbs" "x \<in> set ids"
    by (auto simp: levelIds_def split: option.splits)
  then obtain l where "l < length nbs" "nbs ! l = Some ids" by (auto simp: in_set_conv_nth)
  then show "\<exists>l ids. nb_get nbs l = Some ids \<and> x \<in> set ids"
    using \<open>x \<in> set ids\<close> by (auto simp: nb_get_def)
next
  assume "\<exists>l ids. nb_get nbs l = Some ids \<and> x \<in> set ids"
  then obtain l ids where h: "nb_get nbs l = Some ids" "x \<in> set ids" by blast
  then have "l < length nbs" "nbs ! l = Some ids" by (auto simp: nb_get_def split: if_splits)
  then have "Some ids \<in> set nbs" by (metis nth_mem)
  then show "x \<in> levelIds nbs" using h(2) by (force simp: levelIds_def)
qed

lemma levelIds_nb_set:
  "levelIds (nb_set nbs l v) = set v \<union> {x. \<exists>l' ids. l' \<noteq> l \<and> nb_get nbs l' = Some ids \<and> x \<in> set ids}"
proof (rule set_eqI)
  fix x
  show "x \<in> levelIds (nb_set nbs l v) \<longleftrightarrow>
        x \<in> set v \<union> {x. \<exists>l' ids. l' \<noteq> l \<and> nb_get nbs l' = Some ids \<and> x \<in> set ids}"
    unfolding levelIds_iff nb_get_nb_set
    by (simp split: if_splits) (metis option.inject)
qed

lemma levelIds_nb_set_empty: "nb_get nbs l = None \<Longrightarrow> levelIds (nb_set nbs l []) = levelIds nbs"
proof (rule set_eqI)
  fix x
  assume h: "nb_get nbs l = None"
  show "x \<in> levelIds (nb_set nbs l []) \<longleftrightarrow> x \<in> levelIds nbs"
    unfolding levelIds_nb_set unfolding levelIds_iff using h
    by simp (metis option.distinct(1))
qed

lemma adjacentIds_map_entry:
  assumes "\<And>n. map_of xs k = Some n \<Longrightarrow> levelIds (neighbors (f n)) = levelIds (neighbors n)"
  shows "(\<Union>kn \<in> set (AList.map_entry k f xs). levelIds (neighbors (snd kn)))
       = (\<Union>kn \<in> set xs. levelIds (neighbors (snd kn)))"
  using assms
proof (induction xs)
  case Nil
  then show ?case by simp
next
  case (Cons p xs)
  obtain k' n' where p: "p = (k', n')" by (cases p)
  show ?case
  proof (cases "k' = k")
    case True
    then show ?thesis using Cons.prems[of n'] p by simp
  next
    case False
    then show ?thesis using Cons p by simp
  qed
qed

lemma getNode_Some_mem: "getNode s k = Some n \<Longrightarrow> (k, n) \<in> set (nodes s)"
  by (simp add: getNode_def map_of_SomeD)

lemma neighborsAt_Some:
  "neighborsAt s k l = Some v \<Longrightarrow> \<exists>n. getNode s k = Some n \<and> nb_get (neighbors n) l = Some v"
  by (auto simp: neighborsAt_def nodeAt_def nb_get_def split: option.splits if_splits)

lemma readLevel_subset: "set (readLevel s k l) \<subseteq> adjacentIds s"
proof (cases "neighborsAt s k l")
  case None
  then show ?thesis by (simp add: readLevel_def)
next
  case (Some v)
  then obtain n where n: "getNode s k = Some n" "nb_get (neighbors n) l = Some v"
    using neighborsAt_Some by blast
  have "set v \<subseteq> levelIds (neighbors n)"
  proof
    fix x assume "x \<in> set v"
    then show "x \<in> levelIds (neighbors n)" unfolding levelIds_iff using n(2) by blast
  qed
  moreover have "(k, n) \<in> set (nodes s)" using n(1) by (rule getNode_Some_mem)
  ultimately show ?thesis using Some by (force simp: readLevel_def adjacentIds_def)
qed

lemma map_entry_absent: "map_of xs k = None \<Longrightarrow> AList.map_entry k f xs = xs"
  by (induction xs) (auto split: if_splits)

lemma adjacentIds_initLevel [simp]: "adjacentIds (initLevel k l s) = adjacentIds s"
proof (cases "neighborsAt s k l")
  case (Some v)
  then show ?thesis by (simp add: initLevel_def)
next
  case None
  show ?thesis
  proof (cases "getNode s k")
    case gn: None
    then have "AList.map_entry k (\<lambda>n. n\<lparr>neighbors := nb_set (neighbors n) l []\<rparr>) (nodes s) = nodes s"
      unfolding getNode_def by (rule map_entry_absent)
    then show ?thesis using None by (simp add: initLevel_def setNeighbors_def adjacentIds_def)
  next
    case (Some n)
    have "nb_get (neighbors n) l = None"
      using None Some by (simp add: neighborsAt_def nodeAt_def)
    then have "levelIds (neighbors (n\<lparr>neighbors := nb_set (neighbors n) l []\<rparr>)) = levelIds (neighbors n)"
      by (simp add: levelIds_nb_set_empty)
    then have "\<And>m. map_of (nodes s) k = Some m \<Longrightarrow>
        levelIds (neighbors (m\<lparr>neighbors := nb_set (neighbors m) l []\<rparr>)) = levelIds (neighbors m)"
      using Some by (simp add: getNode_def)
    from adjacentIds_map_entry[where f="\<lambda>n. n\<lparr>neighbors := nb_set (neighbors n) l []\<rparr>", OF this]
    show ?thesis using None by (simp add: initLevel_def setNeighbors_def adjacentIds_def)
  qed
qed

termination searchLoop
proof (relation "measure (\<lambda>(q, ef, lvl, (V, C, W), s). 2 * card (adjacentIds s - V) + length C)")
  show "wf (measure (\<lambda>(q, ef, lvl, (V, C, W), s). 2 * card (adjacentIds s - V) + length C))"
    by simp
next
  fix q :: vec and ef :: int and lvl :: nat and V C W s current C' furthest st
  assume C: "C = current # C'"
    and vn: "visitNeighbors (initLevel current lvl s) q ef
              (readLevel (initLevel current lvl s) current lvl) (V, C', W) = Ok st"
  obtain V' C'' W' where st: "st = (V', C'', W')" by (cases st)
  have "set (readLevel (initLevel current lvl s) current lvl) - {[]} \<subseteq> adjacentIds s"
    using readLevel_subset[of "initLevel current lvl s" current lvl] by auto
  from visitNeighbors_measure[OF vn[unfolded st] finite_adjacentIds this]
  show "((q, ef, lvl, st, initLevel current lvl s), (q, ef, lvl, (V, C, W), s))
        \<in> measure (\<lambda>(q, ef, lvl, (V, C, W), s). 2 * card (adjacentIds s - V) + length C)"
    using C st by simp
qed

declare searchLoop.simps [simp del]

section \<open>Evaluation rules\<close>

lemma nb_get_simps:
  "nb_get [] l = None"
  "nb_get (x # xs) 0 = x"
  "nb_get (x # xs) (Suc l) = nb_get xs l"
  "nb_get (x # xs) 1 = nb_get xs 0"
  "nb_get (x # xs) (numeral k) = nb_get xs (pred_numeral k)"
  by (auto simp: nb_get_def numeral_eq_Suc)

lemma nb_set_simps:
  "nb_set [] 0 v = [Some v]"
  "nb_set [] (Suc l) v = None # nb_set [] l v"
  "nb_set [] 1 v = None # nb_set [] 0 v"
  "nb_set [] (numeral k) v = None # nb_set [] (pred_numeral k) v"
  "nb_set (x # xs) 0 v = Some v # xs"
  "nb_set (x # xs) (Suc l) v = x # nb_set xs l v"
  "nb_set (x # xs) 1 v = x # nb_set xs 0 v"
  "nb_set (x # xs) (numeral k) v = x # nb_set xs (pred_numeral k) v"
  by (auto simp: nb_set_def numeral_eq_Suc replicate_append_same)

lemma selectLevel_top: "selectLevel ps r = int (length ps) - 1"
  by (simp add: selectLevel_def)

lemma length_probs16: "length probs16 = 8"
  by (simp add: probs16_def)

lemmas hnsw_eval =
  HNSW_new_def getMetric_def addPoint_def selectLevel_top length_probs16
  addNodeToGraphOptimized_def nodeAt_def getNode_def downFrom.simps searchLayer_def
  searchLoop.simps initLevel_def readLevel_def neighborsAt_def nb_get_simps nb_set_simps
  setNeighbors_def bySimilarity_def getLast_def popFirst_def popLast_def selectNeighbors_def
  slice0_def addBidirectionalConnections_def shrinkConnectionsIfNeeded_def acceptNeighbor_def
  cosineSimilarity_def dot_def pushFound_def filterEmptyIds_def pushIfAbsent_def
  oldNeighborsQueue_def storeNode_def raiseLevelMax_def removePoint_def updatePoint_def

lemma index0_constructed: "HNSW_new exampleTable 16 200 None ''cosine'' = Ok index0"
  by (simp add: hnsw_eval index0_def exampleTable_def)

lemma index_a_inserted: "addPoint ''a'' [1, 0, 0] (1 / 2) index0 = (Ok (), index_a)"
  by (simp add: hnsw_eval index0_def index_a_def node_a_def)

section \<open>Level selection\<close>

text \<open>
  Claim C1. The level of a new node is drawn by walking the probability table with a
  sample \<open>r\<close>, returning the first index \<open>i\<close> with \<open>r < p(i)\<close>; some samples give level 0.
  The code does not: the \<open>return i\<close> sits inside the \<open>forEach\<close> callback, so \<open>selectLevel\<close>
  always falls through to \<open>probs.length - 1\<close>. With the table of \<open>M = 16\<close> and the sample
  \<open>1/2\<close> the walk of the specification stops at level 0 and the code answers 7.
\<close>

theorem selectLevel_ignores_sample:
  "selectLevel probs16 (1 / 2) = 7 \<and> spec_selectLevel probs16 (1 / 2) = 0"
  by (simp add: selectLevel_top length_probs16 spec_selectLevel_def probs16_def upt_rec)

section \<open>Rejection of a vector of another dimension\<close>

text \<open>
  Claim C5. When the dimension of the index is set, \<open>addPoint\<close> with a non-empty vector of
  another length throws and leaves the whole index as it was.
\<close>

theorem addPoint_dimension_mismatch:
  assumes "d s = Some n" and "v \<noteq> []" and "int (length v) \<noteq> n"
  shows "addPoint uid v r s = (Throw DimensionMismatch, s)"
  using assms by (auto simp: addPoint_def)

theorem addPoint_dimension_mismatch_witness:
  "d index_a = Some 3 \<and> [1, 0] \<noteq> ([] :: vec) \<and> int (length [1, 0 :: real]) \<noteq> 3
   \<and> addPoint ''b'' [1, 0] (1 / 2) index_a = (Throw DimensionMismatch, index_a)"
proof -
  have h1: "d index_a = Some 3" by (simp add: index_a_def)
  have h2: "[1, 0] \<noteq> ([] :: vec)" by simp
  have h3: "int (length [1, 0 :: real]) \<noteq> 3" by simp
  show ?thesis using addPoint_dimension_mismatch[OF h1 h2 h3] h1 by simp
qed

section \<open>Serialization round trip\<close>

lemma update_fresh: "k \<notin> fst ` set al \<Longrightarrow> AList.update k v al = al @ [(k, v)]"
  by (induction al) auto

lemma fold_update_distinct:
  "distinct (map fst (acc @ xs)) \<Longrightarrow> fold (\<lambda>(k, v) m. AList.update k v m) xs acc = acc @ xs"
proof (induction xs arbitrary: acc)
  case Nil
  then show ?case by simp
next
  case (Cons p xs)
  obtain k v where p: "p = (k, v)" by (cases p)
  have fresh: "k \<notin> fst ` set acc" using Cons.prems p by auto
  have "distinct (map fst ((acc @ [(k, v)]) @ xs))" using Cons.prems p by simp
  from Cons.IH[OF this] show ?case using p fresh by (simp add: update_fresh)
qed

lemma Map_new_distinct: "distinct (map fst xs) \<Longrightarrow> Map_new xs = xs"
  using fold_update_distinct[of "[]" xs] by (simp add: Map_new_def)

lemma map_map_option_ident: "map (map_option (\<lambda>lv. lv)) xs = xs"
  by (induction xs) (simp_all add: option.map_ident)

lemma node_parse_toJSON:
  "node_parse ((node_toJSON n)\<lparr>j_vector := map f (j_vector (node_toJSON n))\<rparr>) = n\<lparr>vector := map f (vector n)\<rparr>"
  by (cases n) (simp add: node_parse_def node_toJSON_def map_map_option_ident)

lemma nodes_roundtrip:
  assumes "distinct (map fst (nodes s))"
  shows "Map_new (map (\<lambda>(uid, node). (uid, node_parse (node\<lparr>j_vector := map f (j_vector node)\<rparr>)))
                    (j_nodes (toJSON s)))
         = map (\<lambda>(uid, n). (uid, n\<lparr>vector := map f (vector n)\<rparr>)) (nodes s)"
proof -
  let ?entries = "map (\<lambda>(uid, node). (uid, node_parse (node\<lparr>j_vector := map f (j_vector node)\<rparr>)))
                    (j_nodes (toJSON s))"
  have entries: "?entries = map (\<lambda>(uid, n). (uid, n\<lparr>vector := map f (vector n)\<rparr>)) (nodes s)"
    by (simp add: toJSON_def node_parse_toJSON case_prod_unfold comp_def)
  have "map fst ?entries = map fst (nodes s)"
    unfolding entries by (simp add: case_prod_unfold comp_def)
  then have "distinct (map fst ?entries)" using assms by simp
  then have "Map_new ?entries = ?entries" by (rule Map_new_distinct)
  then show ?thesis using entries by simp
qed

text \<open>
  Claim C4. \<open>fromJSON(toJSON(idx))\<close> succeeds and has the same \<open>M\<close>, \<open>efConstruction\<close>,
  \<open>levelMax\<close> and \<open>entryPointId\<close>, the same node ids in the same order, and for every node
  the same adjacency lists and tombstone flag; each vector is the stored one narrowed
  element by element to a 32-bit float. The keys of a \<open>Map\<close> are distinct.
\<close>

theorem fromJSON_toJSON_roundtrip:
  assumes "distinct (map fst (nodes s))"
  shows "\<exists>h. fromJSON table float32 (toJSON s) = Ok h
           \<and> M h = M s \<and> efConstruction h = efConstruction s
           \<and> levelMax h = levelMax s \<and> entryPointId h = entryPointId s
           \<and> map fst (nodes h) = map fst (nodes s)
           \<and> map (neighbors \<circ> snd) (nodes h) = map (neighbors \<circ> snd) (nodes s)
           \<and> map (deleted \<circ> snd) (nodes h) = map (deleted \<circ> snd) (nodes s)
           \<and> map (vector \<circ> snd) (nodes h) = map (map float32 \<circ> vector \<circ> snd) (nodes s)"
proof -
  have "fromJSON table float32 (toJSON s)
        = Ok \<lparr> metric = ''cosine'', similarityFunction = cosineSimilarity, d = None, M = M s,
               efConstruction = efConstruction s, levelMax = levelMax s,
               entryPointId = entryPointId s,
               nodes = map (\<lambda>(uid, n). (uid, n\<lparr>vector := map float32 (vector n)\<rparr>)) (nodes s),
               probs = table (M s) \<rparr>"
    unfolding fromJSON_def HNSW_new_def getMetric_def nodes_roundtrip[OF assms]
    by (simp add: toJSON_def)
  then show ?thesis by (simp add: case_prod_unfold comp_def)
qed

theorem fromJSON_toJSON_roundtrip_witness:
  "distinct (map fst (nodes index_a))
   \<and> (\<exists>h. fromJSON exampleTable exactFloat32 (toJSON index_a) = Ok h
           \<and> M h = M index_a \<and> efConstruction h = efConstruction index_a
           \<and> levelMax h = levelMax index_a \<and> entryPointId h = entryPointId index_a
           \<and> map fst (nodes h) = map fst (nodes index_a)
           \<and> map (neighbors \<circ> snd) (nodes h) = map (neighbors \<circ> snd) (nodes index_a)
           \<and> map (deleted \<circ> snd) (nodes h) = map (deleted \<circ> snd) (nodes index_a)
           \<and> map (vector \<circ> snd) (nodes h) = map (map exactFloat32 \<circ> vector \<circ> snd) (nodes index_a))"
proof -
  have h: "distinct (map fst (nodes index_a))" by (simp add: index_a_def)
  show ?thesis using fromJSON_toJSON_roundtrip[OF h] h by blast
qed

section \<open>The metric after deserialization\<close>

text \<open>
  Claim C7, as amended. The serialized index carries no metric tag, and \<open>fromJSON\<close> calls
  the constructor with the default metric: whatever index was serialized, the restored
  one has the metric \<open>cosine\<close> and the cosine similarity. The probability table is the one
  of the serialized \<open>M\<close>.
\<close>

theorem fromJSON_metric:
  "\<exists>h. fromJSON table float32 json = Ok h
       \<and> metric h = ''cosine'' \<and> similarityFunction h = cosineSimilarity
       \<and> probs h = table (j_M json)"
  by (simp add: fromJSON_def HNSW_new_def getMetric_def)

text \<open>
  The claim as stated fails: an index constructed with the euclidean metric comes back
  from \<open>fromJSON(toJSON(idx))\<close> with the cosine metric, and the two similarity functions
  differ, for instance on the vectors \<open>[1]\<close> and \<open>[0]\<close>.
\<close>

theorem fromJSON_metric_counterexample:
  "HNSW_new exampleTable 16 200 None ''euclidean'' = Ok index_euclidean
   \<and> fromJSON exampleTable exactFloat32 (toJSON index_euclidean)
       = Ok (index_euclidean\<lparr>metric := ''cosine'', similarityFunction := cosineSimilarity\<rparr>)
   \<and> metric index_euclidean = ''euclidean''
   \<and> similarityFunction index_euclidean [1] [0] = 1 / 2
   \<and> cosineSimilarity [1] [0] = 0"
  by (simp add: HNSW_new_def getMetric_def index_euclidean_def exampleTable_def length_probs16
        fromJSON_def toJSON_def Map_new_def euclideanSimilarity_def cosineSimilarity_def dot_def)

section \<open>Rebuild\<close>

lemma processNode_addPoints:
  "processNode rs oldNodes i s =
     addPoints (map (\<lambda>(j, n). (uniqueid n, vector n, rs j))
                  (filter (\<lambda>(j, n). \<not> deleted n \<and> uniqueid n \<noteq> [])
                     (List.enumerate i (drop i oldNodes)))) s"
proof (induction rs oldNodes i s rule: processNode.induct)
  case (1 rs oldNodes index s)
  show ?case
  proof (cases "index \<ge> length oldNodes")
    case True
    then show ?thesis by (subst processNode.simps) simp
  next
    case False
    then have dr: "drop index oldNodes = oldNodes ! index # drop (Suc index) oldNodes"
      by (simp add: Cons_nth_drop_Suc)
    show ?thesis
    proof (cases "\<not> deleted (oldNodes ! index) \<and> uniqueid (oldNodes ! index) \<noteq> []")
      case live: True
      show ?thesis
      proof (cases "addPoint (uniqueid (oldNodes ! index)) (vector (oldNodes ! index)) (rs index) s")
        case (Pair res s')
        show ?thesis
        proof (cases res)
          case (Throw e)
          then show ?thesis using False live Pair dr
            by (subst processNode.simps) simp
        next
          case (Ok u)
          then show ?thesis using False live Pair dr "1.IH"(1)[OF _ live Pair[symmetric], of u]
            by (subst processNode.simps) simp
        qed
      qed
    next
      case dead: False
      then show ?thesis using False dr "1.IH"(2)
        by (subst processNode.simps) auto
    qed
  qed
qed

text \<open>
  Claim C8, as amended. \<open>rebuildGraphNodes\<close> clears the node map and the entry point and
  then calls \<open>addPoint\<close>, in the old order and with the original id and vector, for exactly
  the prior records that are not tombstoned and whose id is not the empty string.
\<close>

theorem rebuildGraphNodes_reinserts:
  "rebuildGraphNodes rs s =
     addPoints (map (\<lambda>(j, n). (uniqueid n, vector n, rs j))
                  (filter (\<lambda>(j, n). \<not> deleted n \<and> uniqueid n \<noteq> [])
                     (List.enumerate 0 (map snd (nodes s)))))
       (s\<lparr>nodes := [], entryPointId := []\<rparr>)"
  by (simp add: rebuildGraphNodes_def processNode_addPoints)

text \<open>
  The claim as stated fails twice. The rebuild of an index whose only record is
  tombstoned leaves \<open>levelMax\<close> at 7, not 0; and a record stored under the empty id is
  not tombstoned and still is not inserted again.
\<close>

theorem rebuildGraphNodes_counterexample:
  "removePoint ''a'' index_a = index_a_removed
   \<and> rebuildGraphNodes halfSamples index_a_removed
       = (Ok (), index_a_removed\<lparr>nodes := [], entryPointId := []\<rparr>)
   \<and> levelMax (index_a_removed\<lparr>nodes := [], entryPointId := []\<rparr>) = 7
   \<and> addPoint [] [1, 0, 0] (1 / 2) index0 = (Ok (), index_blank)
   \<and> \<not> deleted (nodeAt index_blank [])
   \<and> rebuildGraphNodes halfSamples index_blank = (Ok (), index_blank\<lparr>nodes := []\<rparr>)"
  by (simp add: hnsw_eval rebuildGraphNodes_def processNode.simps halfSamples_def
        index_a_removed_def index_a_def node_a_def index0_def index_blank_def)

section \<open>Frame of the layer search\<close>

lemma materialised_refl [simp]: "materialised nbs nbs"
  by (simp add: materialised_def)

lemma nb_get_beyond: "length nbs \<le> l \<Longrightarrow> nb_get nbs l = None"
  by (simp add: nb_get_def)

lemma materialisedD:
  assumes "materialised nbs nbs'"
  shows "nb_get nbs' l = nb_get nbs l \<or> (nb_get nbs l = None \<and> nb_get nbs' l = Some [])"
proof (cases "l < length nbs'")
  case True
  then show ?thesis using assms by (simp add: materialised_def)
next
  case False
  then have "nb_get nbs' l = None" "nb_get nbs l = None"
    using assms by (auto simp: materialised_def nb_get_beyond)
  then show ?thesis by simp
qed

lemma materialisedI:
  assumes "length nbs \<le> length nbs'"
    and "\<And>l. nb_get nbs' l = nb_get nbs l \<or> (nb_get nbs l = None \<and> nb_get nbs' l = Some [])"
  shows "materialised nbs nbs'"
  using assms by (simp add: materialised_def)

lemma materialised_trans:
  assumes "materialised a b" and "materialised b c"
  shows "materialised a c"
proof (rule materialisedI)
  show "length a \<le> length c" using assms by (simp add: materialised_def)
next
  fix l
  from materialisedD[OF assms(1), of l] materialisedD[OF assms(2), of l]
  show "nb_get c l = nb_get a l \<or> (nb_get a l = None \<and> nb_get c l = Some [])"
    by auto
qed

lemma length_nb_set: "length nbs \<le> length (nb_set nbs l v)"
  by (simp add: nb_set_def)

lemma materialised_nb_set:
  "nb_get nbs l = None \<Longrightarrow> materialised nbs (nb_set nbs l [])"
  by (rule materialisedI) (auto simp: length_nb_set nb_get_nb_set)

lemma sameNode_refl [simp]: "sameNode n n"
  by (simp add: sameNode_def)

lemma sameNode_trans: "sameNode a b \<Longrightarrow> sameNode b c \<Longrightarrow> sameNode a c"
  by (auto simp: sameNode_def intro: materialised_trans)

lemma sameEntry_refl [simp]: "sameEntry kn kn"
  by (simp add: sameEntry_def)

lemma sameEntry_trans: "sameEntry a b \<Longrightarrow> sameEntry b c \<Longrightarrow> sameEntry a c"
  by (auto simp: sameEntry_def intro: sameNode_trans)

lemma unchangedButInitialised_refl [simp]: "unchangedButInitialised s s"
  by (simp add: unchangedButInitialised_def list_all2_refl)

lemma unchangedButInitialised_trans:
  assumes "unchangedButInitialised s s'" and "unchangedButInitialised s' s''"
  shows "unchangedButInitialised s s''"
proof -
  have a: "list_all2 sameEntry (nodes s) (nodes s')" and b: "list_all2 sameEntry (nodes s') (nodes s'')"
    using assms by (auto simp: unchangedButInitialised_def)
  have "list_all2 sameEntry (nodes s) (nodes s'')"
    by (rule list_all2_trans[OF _ a b]) (rule sameEntry_trans)
  then show ?thesis using assms by (simp add: unchangedButInitialised_def)
qed

lemma list_all2_map_entry:
  assumes "\<And>n. map_of xs k = Some n \<Longrightarrow> sameNode n (f n)"
  shows "list_all2 sameEntry xs (AList.map_entry k f xs)"
  using assms
proof (induction xs)
  case Nil
  then show ?case by simp
next
  case (Cons p xs)
  obtain k' n' where p: "p = (k', n')" by (cases p)
  show ?case
  proof (cases "k' = k")
    case True
    then show ?thesis using Cons.prems[of n'] p by (simp add: sameEntry_def list_all2_refl)
  next
    case False
    then show ?thesis using Cons p by (simp add: sameEntry_def)
  qed
qed

lemma unchangedButInitialised_initLevel: "unchangedButInitialised s (initLevel k l s)"
proof (cases "neighborsAt s k l")
  case (Some v)
  then show ?thesis by (simp add: initLevel_def)
next
  case None
  have "\<And>n. map_of (nodes s) k = Some n \<Longrightarrow> sameNode n (n\<lparr>neighbors := nb_set (neighbors n) l []\<rparr>)"
  proof -
    fix n assume "map_of (nodes s) k = Some n"
    then have "nb_get (neighbors n) l = None"
      using None by (simp add: neighborsAt_def nodeAt_def getNode_def)
    then show "sameNode n (n\<lparr>neighbors := nb_set (neighbors n) l []\<rparr>)"
      by (simp add: sameNode_def materialised_nb_set)
  qed
  from list_all2_map_entry[where f="\<lambda>n. n\<lparr>neighbors := nb_set (neighbors n) l []\<rparr>", OF this]
  show ?thesis using None by (simp add: initLevel_def setNeighbors_def unchangedButInitialised_def)
qed

lemma searchLoop_frame:
  "searchLoop q ef lvl st s = (r, s') \<Longrightarrow> unchangedButInitialised s s'"
proof (induction q ef lvl st s arbitrary: r s' rule: searchLoop.induct)
  case (1 q ef lvl V C W s)
  show ?case
  proof (cases C)
    case Nil
    then show ?thesis using "1.prems" by (simp add: searchLoop.simps)
  next
    case (Cons current C')
    show ?thesis
    proof (cases "getLast W")
      case None
      then show ?thesis using "1.prems" Cons by (simp add: searchLoop.simps)
    next
      case (Some furthest)
      show ?thesis
      proof (cases "similarityFunction s q (vector (nodeAt s current))
                    < similarityFunction s q (vector (nodeAt s furthest))")
        case True
        then show ?thesis using "1.prems" Cons Some by (simp add: searchLoop.simps)
      next
        case False
        show ?thesis
        proof (cases "visitNeighbors (initLevel current lvl s) q ef
                         (readLevel (initLevel current lvl s) current lvl) (V, C', W)")
          case (Throw e)
          then show ?thesis using "1.prems" Cons Some False
            by (auto simp: searchLoop.simps unchangedButInitialised_initLevel)
        next
          case (Ok st)
          then have "searchLoop q ef lvl st (initLevel current lvl s) = (r, s')"
            using "1.prems" Cons Some False by (simp add: searchLoop.simps)
          from "1.IH"[OF Cons Some False Ok this]
          show ?thesis using unchangedButInitialised_initLevel unchangedButInitialised_trans by blast
        qed
      qed
    qed
  qed
qed

lemma searchLayer_frame:
  "searchLayer q eps ef lvl s = (r, s') \<Longrightarrow> unchangedButInitialised s s'"
  by (auto simp: searchLayer_def split: result.splits dest: searchLoop_frame)

section \<open>Order of the candidate queues\<close>

lemma list_all2_sameEntry_map_of:
  "list_all2 sameEntry xs ys \<Longrightarrow> rel_option sameNode (map_of xs k) (map_of ys k)"
proof (induction xs ys rule: list_all2_induct)
  case Nil
  then show ?case by simp
next
  case (Cons x xs y ys)
  then show ?case by (cases x; cases y) (auto simp: sameEntry_def)
qed

lemma frame_getNode:
  "unchangedButInitialised s s' \<Longrightarrow> rel_option sameNode (getNode s k) (getNode s' k)"
  by (simp add: unchangedButInitialised_def getNode_def list_all2_sameEntry_map_of)

lemma frame_getNode_None:
  "unchangedButInitialised s s' \<Longrightarrow> getNode s' k = None \<longleftrightarrow> getNode s k = None"
  using frame_getNode[of s s' k] by (cases "getNode s k"; cases "getNode s' k") auto

lemma frame_nodeAt: "unchangedButInitialised s s' \<Longrightarrow> sameNode (nodeAt s k) (nodeAt s' k)"
  using frame_getNode[of s s' k]
  by (cases "getNode s k"; cases "getNode s' k") (auto simp: nodeAt_def)

lemma frame_vector: "unchangedButInitialised s s' \<Longrightarrow> vector (nodeAt s' k) = vector (nodeAt s k)"
  using frame_nodeAt[of s s' k] by (simp add: sameNode_def)

lemma frame_deleted: "unchangedButInitialised s s' \<Longrightarrow> deleted (nodeAt s' k) = deleted (nodeAt s k)"
  using frame_nodeAt[of s s' k] by (simp add: sameNode_def)

lemma frame_uniqueid: "unchangedButInitialised s s' \<Longrightarrow> uniqueid (nodeAt s' k) = uniqueid (nodeAt s k)"
  using frame_nodeAt[of s s' k] by (simp add: sameNode_def)

lemma frame_similarity:
  "unchangedButInitialised s s' \<Longrightarrow> similarityFunction s' = similarityFunction s"
  by (simp add: unchangedButInitialised_def)

lemma frame_bySimilarity: "unchangedButInitialised s s' \<Longrightarrow> bySimilarity s' q = bySimilarity s q"
  by (intro ext) (simp add: bySimilarity_def frame_vector frame_similarity)

text \<open>The queues are sorted, most similar first.\<close>

lemma set_push [simp]: "set (push c x xs) = insert x (set xs)"
  by (induction xs) auto







section \<open>Result of the top-K search\<close>

lemma score_scoreNode [simp]:
  "score (scoreNode s q k) = similarityFunction s q (vector (nodeAt s k))"
  "vector (scoreNode s q k) = vector (nodeAt s k)"
  "deleted (scoreNode s q k) = deleted (nodeAt s k)"
  "uniqueid (scoreNode s q k) = uniqueid (nodeAt s k)"
  by (simp_all add: scoreNode_def AstroNode.defs)




section \<open>Searches of a well-formed index do not throw\<close>

lemma materialised_levelIds: "materialised nbs nbs' \<Longrightarrow> levelIds nbs' = levelIds nbs"
proof (rule set_eqI)
  fix x assume m: "materialised nbs nbs'"
  show "x \<in> levelIds nbs' \<longleftrightarrow> x \<in> levelIds nbs"
  proof
    assume "x \<in> levelIds nbs'"
    then obtain l ids where h: "nb_get nbs' l = Some ids" "x \<in> set ids"
      unfolding levelIds_iff by blast
    with materialisedD[OF m, of l] have "nb_get nbs l = Some ids" by auto
    with h(2) show "x \<in> levelIds nbs" unfolding levelIds_iff by blast
  next
    assume "x \<in> levelIds nbs"
    then obtain l ids where h: "nb_get nbs l = Some ids" "x \<in> set ids"
      unfolding levelIds_iff by blast
    with materialisedD[OF m, of l] have "nb_get nbs' l = Some ids" by auto
    with h(2) show "x \<in> levelIds nbs'" unfolding levelIds_iff by blast
  qed
qed

lemma list_all2_sameEntry_ids:
  "list_all2 sameEntry xs ys \<Longrightarrow>
   (\<Union>kn \<in> set ys. levelIds (neighbors (snd kn))) = (\<Union>kn \<in> set xs. levelIds (neighbors (snd kn)))"
proof (induction xs ys rule: list_all2_induct)
  case Nil
  then show ?case by simp
next
  case (Cons x xs y ys)
  then have "levelIds (neighbors (snd y)) = levelIds (neighbors (snd x))"
    by (simp add: sameEntry_def sameNode_def materialised_levelIds)
  then show ?case using Cons by simp
qed

lemma frame_adjacentIds: "unchangedButInitialised s s' \<Longrightarrow> adjacentIds s' = adjacentIds s"
  by (simp add: unchangedButInitialised_def adjacentIds_def list_all2_sameEntry_ids)

lemma frame_closedAdjacency:
  "unchangedButInitialised s s' \<Longrightarrow> closedAdjacency s' \<longleftrightarrow> closedAdjacency s"
  by (simp add: closedAdjacency_def frame_adjacentIds frame_getNode_None)

lemma frame_entryResolves:
  assumes "unchangedButInitialised s s'"
  shows "entryResolves s' \<longleftrightarrow> entryResolves s"
proof -
  have "entryPointId s' = entryPointId s" using assms by (simp add: unchangedButInitialised_def)
  then show ?thesis by (simp add: entryResolves_def frame_getNode_None[OF assms])
qed

lemma push_nonempty [simp]: "push c x xs \<noteq> []"
  by (cases xs) auto

lemma seedEntryPoints_ok:
  assumes "\<forall>ep \<in> set eps. getNode s ep \<noteq> None" and "C = [] \<longleftrightarrow> W = []"
  shows "\<exists>V' C' W'. seedEntryPoints s q eps (V, C, W) = Ok (V', C', W')
           \<and> (C' = [] \<longleftrightarrow> W' = []) \<and> set C' \<subseteq> set C \<union> set eps \<and> set W' \<subseteq> set W \<union> set eps"
  using assms
proof (induction eps arbitrary: V C W)
  case Nil
  then show ?case by simp
next
  case (Cons ep eps)
  then obtain n where n: "getNode s ep = Some n" by auto
  show ?case
  proof (cases "uniqueid n \<in> V")
    case True
    from Cons.IH[of C W V] Cons.prems
    show ?thesis using n True by auto
  next
    case False
    have "\<forall>ep \<in> set eps. getNode s ep \<noteq> None" using Cons.prems by simp
    from Cons.IH[OF this, of "push (bySimilarity s q) ep C" "push (bySimilarity s q) ep W" "insert (uniqueid n) V"]
    show ?thesis using n False by auto
  qed
qed

lemma butlast_nonempty: "2 \<le> length xs \<Longrightarrow> butlast xs \<noteq> []"
  by (cases xs) (auto split: if_splits)

lemma pushFound_props:
  "W \<noteq> [] \<Longrightarrow> pushFound c ef x W \<noteq> []"
  "set (pushFound c ef x W) \<subseteq> insert x (set W)"
proof -
  show "W \<noteq> [] \<Longrightarrow> pushFound c ef x W \<noteq> []"
    by (cases W) (auto simp: pushFound_def popLast_def)
  show "set (pushFound c ef x W) \<subseteq> insert x (set W)"
    using in_set_butlastD[of _ "push c x W"] by (auto simp: pushFound_def popLast_def)
qed

lemma visitNeighbors_ok:
  assumes "\<forall>x \<in> set ids. x \<noteq> [] \<longrightarrow> getNode s x \<noteq> None" and "W \<noteq> []"
  shows "\<exists>V' C' W'. visitNeighbors s q ef ids (V, C, W) = Ok (V', C', W')
           \<and> W' \<noteq> [] \<and> set C' \<subseteq> set C \<union> (set ids - {[]}) \<and> set W' \<subseteq> set W \<union> (set ids - {[]})"
  using assms
proof (induction ids arbitrary: V C W)
  case Nil
  then show ?case by simp
next
  case (Cons i ids)
  have rest: "\<forall>x \<in> set ids. x \<noteq> [] \<longrightarrow> getNode s x \<noteq> None" using Cons.prems by simp
  show ?case
  proof (cases "i \<noteq> [] \<and> i \<notin> V")
    case False
    from Cons.IH[OF rest Cons.prems(2), of V C]
    show ?thesis using False by auto
  next
    case True
    then obtain nb where nb: "getNode s i = Some nb" using Cons.prems by auto
    have "getLast W \<noteq> None" using Cons.prems(2) by (simp add: getLast_def)
    then have "\<exists>acc. acceptNeighbor s q ef nb W = Ok acc"
      by (auto simp: acceptNeighbor_def)
    then obtain acc where acc: "acceptNeighbor s q ef nb W = Ok acc" by blast
    show ?thesis
    proof (cases acc)
      case t: True
      have ne: "pushFound (bySimilarity s q) ef i W \<noteq> []" using Cons.prems(2) by (rule pushFound_props)
      from Cons.IH[OF rest ne, of "insert i V" "push (bySimilarity s q) i C"]
      obtain V' C' W' where r: "visitNeighbors s q ef ids (insert i V, push (bySimilarity s q) i C,
            pushFound (bySimilarity s q) ef i W) = Ok (V', C', W')" "W' \<noteq> []"
          "set C' \<subseteq> set (push (bySimilarity s q) i C) \<union> (set ids - {[]})"
          "set W' \<subseteq> set (pushFound (bySimilarity s q) ef i W) \<union> (set ids - {[]})"
        by blast
      have "visitNeighbors s q ef (i # ids) (V, C, W) = Ok (V', C', W')"
        using True nb acc t r(1) by simp
      moreover have "set C' \<subseteq> set C \<union> (set (i # ids) - {[]})"
        using r(3) True by auto
      moreover have "set W' \<subseteq> set W \<union> (set (i # ids) - {[]})"
        using r(4) pushFound_props(2)[of "bySimilarity s q" ef i W] True by auto
      ultimately show ?thesis using r(2) by blast
    next
      case f: False
      from Cons.IH[OF rest Cons.prems(2), of "insert i V" C]
      obtain V' C' W' where r: "visitNeighbors s q ef ids (insert i V, C, W) = Ok (V', C', W')"
          "W' \<noteq> []" "set C' \<subseteq> set C \<union> (set ids - {[]})" "set W' \<subseteq> set W \<union> (set ids - {[]})"
        by blast
      have "visitNeighbors s q ef (i # ids) (V, C, W) = Ok (V', C', W')"
        using True nb acc f r(1) by simp
      moreover have "set C' \<subseteq> set C \<union> (set (i # ids) - {[]})" using r(3) by auto
      moreover have "set W' \<subseteq> set W \<union> (set (i # ids) - {[]})" using r(4) by auto
      ultimately show ?thesis using r(2) by blast
    qed
  qed
qed

lemma searchLoop_ok:
  assumes "closedAdjacency s" and "C = [] \<or> W \<noteq> []"
    and "\<forall>x \<in> set C \<union> set W. getNode s x \<noteq> None"
  shows "\<exists>W' s'. searchLoop q ef lvl (V, C, W) s = (Ok W', s')
           \<and> (\<forall>x \<in> set W'. getNode s x \<noteq> None)"
  using assms
proof (induction q ef lvl "(V, C, W)" s arbitrary: V C W rule: searchLoop.induct)
  case (1 q ef lvl V C W s)
  show ?case
  proof (cases C)
    case Nil
    then show ?thesis using "1.prems" by (simp add: searchLoop.simps)
  next
    case (Cons current C')
    then have "W \<noteq> []" using "1.prems" by simp
    then obtain furthest where fu: "getLast W = Some furthest" by (simp add: getLast_def)
    show ?thesis
    proof (cases "similarityFunction s q (vector (nodeAt s current))
                    < similarityFunction s q (vector (nodeAt s furthest))")
      case True
      then show ?thesis using "1.prems" Cons fu by (simp add: searchLoop.simps)
    next
      case False
      let ?s = "initLevel current lvl s"
      have fr: "unchangedButInitialised s ?s" by (rule unchangedButInitialised_initLevel)
      have cl: "closedAdjacency ?s" using "1.prems"(1) frame_closedAdjacency[OF fr] by simp
      have "\<forall>x \<in> set (readLevel ?s current lvl). x \<noteq> [] \<longrightarrow> getNode ?s x \<noteq> None"
        using cl readLevel_subset[of ?s current lvl] by (auto simp: closedAdjacency_def)
      from visitNeighbors_ok[OF this \<open>W \<noteq> []\<close>, of q ef V C']
      obtain V' C'' W' where vn: "visitNeighbors ?s q ef (readLevel ?s current lvl) (V, C', W) = Ok (V', C'', W')"
        and ne: "W' \<noteq> []"
        and sc: "set C'' \<subseteq> set C' \<union> (set (readLevel ?s current lvl) - {[]})"
        and sw: "set W' \<subseteq> set W \<union> (set (readLevel ?s current lvl) - {[]})"
        by blast
      have res: "\<forall>x \<in> set C'' \<union> set W'. getNode ?s x \<noteq> None"
      proof
        fix x assume "x \<in> set C'' \<union> set W'"
        then consider "x \<in> set C \<union> set W" | "x \<in> set (readLevel ?s current lvl)" "x \<noteq> []"
          using sc sw Cons by auto
        then show "getNode ?s x \<noteq> None"
        proof cases
          case 1
          then show ?thesis using "1.prems"(3) frame_getNode_None[OF fr] by auto
        next
          case 2
          then show ?thesis using cl readLevel_subset[of ?s current lvl] by (auto simp: closedAdjacency_def)
        qed
      qed
      from "1.hyps"[OF Cons fu False vn cl _ res] ne
      obtain W'' s' where rec: "searchLoop q ef lvl (V', C'', W') ?s = (Ok W'', s')"
        and rs: "\<forall>x \<in> set W''. getNode ?s x \<noteq> None" by blast
      have "searchLoop q ef lvl (V, C, W) s = (Ok W'', s')"
        using Cons fu False vn rec by (simp add: searchLoop.simps)
      then show ?thesis using rs frame_getNode_None[OF fr] by auto
    qed
  qed
qed

lemma searchLayer_ok:
  assumes "closedAdjacency s" and "\<forall>ep \<in> set eps. getNode s ep \<noteq> None"
  shows "\<exists>W s'. searchLayer q eps ef lvl s = (Ok W, s')
           \<and> (\<forall>x \<in> set W. getNode s x \<noteq> None)"
proof -
  from seedEntryPoints_ok[OF assms(2), of "[]" "[]" q "{}"]
  obtain V C W where seed: "seedEntryPoints s q eps ({}, [], []) = Ok (V, C, W)"
    and cw: "C = [] \<longleftrightarrow> W = []" and sub: "set C \<subseteq> set eps" "set W \<subseteq> set eps"
    by auto
  have "\<forall>x \<in> set C \<union> set W. getNode s x \<noteq> None" using sub assms(2) by auto
  from searchLoop_ok[OF assms(1) _ this, of q ef lvl V] cw
  show ?thesis using seed by (auto simp: searchLayer_def)
qed

lemma set_slice0: "set (slice0 xs k) \<subseteq> set xs"
  by (auto simp: slice0_def dest: in_set_takeD)


lemma set_selectNeighbors: "set (selectNeighbors xs k) \<subseteq> set xs"
  using set_slice0[of xs k] by (auto simp: selectNeighbors_def)









section \<open>Read-only search\<close>





section \<open>Self-loops\<close>

lemma index_ab_inserted: "addPoint ''b'' [0, 1, 0] (1 / 2) index_a = (Ok (), index_ab)"
  by (simp add: hnsw_eval index_ab_def node_at_all_levels_def index_a_def node_a_def index0_def)

text \<open>
  Claim C6. No node lists itself as a neighbour, also after \<open>updatePoint\<close> of an existing
  id. The code breaks this: \<open>addPoint\<close> stores the new record under the id before it searches,
  so when an old neighbour still lists the id the search finds the new node itself, and
  \<open>addBidirectionalConnections\<close> links it with itself. After \<open>addPoint("a", [1, 0, 0])\<close>,
  \<open>addPoint("b", [0, 1, 0])\<close> and \<open>updatePoint("b", [0, 0, 1])\<close> the node \<open>"b"\<close> has \<open>"b"\<close> in
  its adjacency list, at level 0 as at every level.
\<close>

theorem updatePoint_self_loop:
  "updatePoint ''b'' [0, 0, 1] (1 / 2) index_ab = (Ok (), index_ab_updated_b)
   \<and> neighborsAt index_ab_updated_b ''b'' 0 = Some [''b'', ''a'']"
  by (simp add: hnsw_eval index_ab_updated_b_def index_ab_def node_at_all_levels_def
        index_a_def node_a_def index0_def)

section \<open>Writes to the node map\<close>

lemma getNode_None_iff: "getNode s k = None \<longleftrightarrow> k \<notin> set (map fst (nodes s))"
  by (simp add: getNode_def map_of_eq_None_iff)

lemma map_fst_map_entry [simp]: "map fst (AList.map_entry k f xs) = map fst xs"
  by (induction xs) auto

lemma keys_setNeighbors [simp]: "map fst (nodes (setNeighbors k l v s)) = map fst (nodes s)"
  by (simp add: setNeighbors_def)

lemma fields_setNeighbors [simp]:
  "metric (setNeighbors k l v s) = metric s"
  "similarityFunction (setNeighbors k l v s) = similarityFunction s"
  "d (setNeighbors k l v s) = d s"
  "M (setNeighbors k l v s) = M s"
  "efConstruction (setNeighbors k l v s) = efConstruction s"
  "levelMax (setNeighbors k l v s) = levelMax s"
  "entryPointId (setNeighbors k l v s) = entryPointId s"
  "probs (setNeighbors k l v s) = probs s"
  by (simp_all add: setNeighbors_def)

lemma getNode_setNeighbors:
  "getNode (setNeighbors k l v s) k' =
     (if k' = k then map_option (\<lambda>n. n\<lparr>neighbors := nb_set (neighbors n) l v\<rparr>) (getNode s k)
      else getNode s k')"
  by (auto simp: getNode_def setNeighbors_def map_of_map_entry split: option.splits)

lemma getNode_setNeighbors_None [simp]:
  "getNode (setNeighbors k l v s) k' = None \<longleftrightarrow> getNode s k' = None"
  by (simp add: getNode_None_iff)

lemma nodeAt_setNeighbors:
  "nodeAt (setNeighbors k l v s) k' =
     (if k' = k \<and> getNode s k \<noteq> None
      then (nodeAt s k)\<lparr>neighbors := nb_set (neighbors (nodeAt s k)) l v\<rparr>
      else nodeAt s k')"
  by (auto simp: nodeAt_def getNode_setNeighbors split: option.splits)

lemma nodeAt_fields_setNeighbors [simp]:
  "uniqueid (nodeAt (setNeighbors k l v s) k') = uniqueid (nodeAt s k')"
  "vector (nodeAt (setNeighbors k l v s) k') = vector (nodeAt s k')"
  "deleted (nodeAt (setNeighbors k l v s) k') = deleted (nodeAt s k')"
  "level (nodeAt (setNeighbors k l v s) k') = level (nodeAt s k')"
  by (simp_all add: nodeAt_setNeighbors)

lemma neighborsAt_setNeighbors:
  "neighborsAt (setNeighbors k l v s) k' l' =
     (if k' = k \<and> getNode s k \<noteq> None \<and> l' = l then Some v else neighborsAt s k' l')"
  by (auto simp: neighborsAt_def nodeAt_setNeighbors nb_get_nb_set)

lemma readLevel_setNeighbors:
  "readLevel (setNeighbors k l v s) k' l' =
     (if k' = k \<and> getNode s k \<noteq> None \<and> l' = l then v else readLevel s k' l')"
  by (auto simp: readLevel_def neighborsAt_setNeighbors)

lemma keys_initLevel [simp]: "map fst (nodes (initLevel k l s)) = map fst (nodes s)"
  by (simp add: initLevel_def split: option.splits)

lemma getNode_initLevel_None [simp]:
  "getNode (initLevel k l s) k' = None \<longleftrightarrow> getNode s k' = None"
  by (simp add: getNode_None_iff)

lemma readLevel_initLevel [simp]: "readLevel (initLevel k l s) k' l' = readLevel s k' l'"
proof (cases "neighborsAt s k l")
  case None
  then have "readLevel s k l = []" by (simp add: readLevel_def)
  then show ?thesis using None by (simp add: initLevel_def readLevel_setNeighbors)
next
  case (Some v)
  then show ?thesis by (simp add: initLevel_def)
qed

lemma neighborsAt_initLevel:
  "neighborsAt (initLevel k l s) k' l' =
     (if k' = k \<and> getNode s k \<noteq> None \<and> l' = l \<and> neighborsAt s k l = None then Some []
      else neighborsAt s k' l')"
  by (auto simp: initLevel_def neighborsAt_setNeighbors split: option.splits)

lemma nodeAt_fields_initLevel [simp]:
  "uniqueid (nodeAt (initLevel k l s) k') = uniqueid (nodeAt s k')"
  "vector (nodeAt (initLevel k l s) k') = vector (nodeAt s k')"
  "deleted (nodeAt (initLevel k l s) k') = deleted (nodeAt s k')"
  "level (nodeAt (initLevel k l s) k') = level (nodeAt s k')"
  by (simp_all add: initLevel_def split: option.splits)

lemma fields_initLevel [simp]:
  "similarityFunction (initLevel k l s) = similarityFunction s"
  "d (initLevel k l s) = d s"
  "M (initLevel k l s) = M s"
  "efConstruction (initLevel k l s) = efConstruction s"
  "levelMax (initLevel k l s) = levelMax s"
  "entryPointId (initLevel k l s) = entryPointId s"
  "probs (initLevel k l s) = probs s"
  "metric (initLevel k l s) = metric s"
  by (simp_all add: initLevel_def split: option.splits)

section \<open>Changes that touch adjacency only\<close>

lemma sameFields_refl [simp]: "sameFields kn kn"
  by (simp add: sameFields_def)

lemma sameFields_trans: "sameFields a b \<Longrightarrow> sameFields b c \<Longrightarrow> sameFields a c"
  by (simp add: sameFields_def)

lemma adjacencyOnly_refl [simp]: "adjacencyOnly s s"
  by (simp add: adjacencyOnly_def list_all2_refl)

lemma adjacencyOnly_trans:
  assumes "adjacencyOnly s s'" and "adjacencyOnly s' s''"
  shows "adjacencyOnly s s''"
proof -
  have a: "list_all2 sameFields (nodes s) (nodes s')" and b: "list_all2 sameFields (nodes s') (nodes s'')"
    using assms by (auto simp: adjacencyOnly_def)
  have "list_all2 sameFields (nodes s) (nodes s'')"
    by (rule list_all2_trans[OF _ a b]) (rule sameFields_trans)
  then show ?thesis using assms by (simp add: adjacencyOnly_def)
qed

lemma list_all2_sameFields_map_entry:
  assumes "\<And>n. uniqueid (f n) = uniqueid n \<and> level (f n) = level n \<and> vector (f n) = vector n
              \<and> deleted (f n) = deleted n"
  shows "list_all2 sameFields xs (AList.map_entry k f xs)"
proof (induction xs)
  case Nil
  then show ?case by simp
next
  case (Cons p xs)
  then show ?case using assms by (cases p) (auto simp: sameFields_def list_all2_refl)
qed

lemma adjacencyOnly_setNeighbors [simp]: "adjacencyOnly s (setNeighbors k l v s)"
  by (simp add: adjacencyOnly_def setNeighbors_def list_all2_sameFields_map_entry)

lemma adjacencyOnly_initLevel [simp]: "adjacencyOnly s (initLevel k l s)"
  by (simp add: initLevel_def split: option.splits)

lemma list_all2_sameFields_keys: "list_all2 sameFields xs ys \<Longrightarrow> map fst ys = map fst xs"
  by (induction xs ys rule: list_all2_induct) (auto simp: sameFields_def)

lemma list_all2_sameFields_map_of:
  "list_all2 sameFields xs ys \<Longrightarrow>
   rel_option (\<lambda>n n'. uniqueid n' = uniqueid n \<and> level n' = level n \<and> vector n' = vector n
                        \<and> deleted n' = deleted n) (map_of xs k) (map_of ys k)"
proof (induction xs ys rule: list_all2_induct)
  case Nil
  then show ?case by simp
next
  case (Cons x xs y ys)
  then show ?case by (cases x; cases y) (auto simp: sameFields_def)
qed

lemma adjacencyOnly_keys: "adjacencyOnly s s' \<Longrightarrow> map fst (nodes s') = map fst (nodes s)"
  by (simp add: adjacencyOnly_def list_all2_sameFields_keys)

lemma adjacencyOnly_getNode_None:
  "adjacencyOnly s s' \<Longrightarrow> getNode s' k = None \<longleftrightarrow> getNode s k = None"
  by (simp add: getNode_None_iff adjacencyOnly_keys)

lemma adjacencyOnly_nodeAt:
  assumes "adjacencyOnly s s'"
  shows "uniqueid (nodeAt s' k) = uniqueid (nodeAt s k)"
    and "level (nodeAt s' k) = level (nodeAt s k)"
    and "vector (nodeAt s' k) = vector (nodeAt s k)"
    and "deleted (nodeAt s' k) = deleted (nodeAt s k)"
proof -
  have "rel_option (\<lambda>n n'. uniqueid n' = uniqueid n \<and> level n' = level n \<and> vector n' = vector n
                        \<and> deleted n' = deleted n) (getNode s k) (getNode s' k)"
    using assms by (simp add: adjacencyOnly_def getNode_def list_all2_sameFields_map_of)
  then show "uniqueid (nodeAt s' k) = uniqueid (nodeAt s k)"
    and "level (nodeAt s' k) = level (nodeAt s k)"
    and "vector (nodeAt s' k) = vector (nodeAt s k)"
    and "deleted (nodeAt s' k) = deleted (nodeAt s k)"
    by (cases "getNode s k"; cases "getNode s' k"; simp add: nodeAt_def)+
qed

lemma sameEntry_sameFields: "sameEntry kn kn' \<Longrightarrow> sameFields kn kn'"
  by (simp add: sameEntry_def sameFields_def sameNode_def)

lemma unchangedButInitialised_adjacencyOnly:
  "unchangedButInitialised s s' \<Longrightarrow> adjacencyOnly s s'"
  by (auto simp: unchangedButInitialised_def adjacencyOnly_def
           elim!: list_all2_mono dest: sameEntry_sameFields)

lemma keysMatch_getNode: "keysMatch s \<Longrightarrow> getNode s k = Some n \<Longrightarrow> uniqueid n = k"
  using getNode_Some_mem[of s k n] by (auto simp: keysMatch_def)

lemma keysMatch_nodeAt: "keysMatch s \<Longrightarrow> getNode s k \<noteq> None \<Longrightarrow> uniqueid (nodeAt s k) = k"
  by (auto simp: nodeAt_def dest: keysMatch_getNode)

lemma list_all2_sameFields_keysMatch:
  "list_all2 sameFields xs ys \<Longrightarrow>
   (\<forall>kn \<in> set ys. uniqueid (snd kn) = fst kn) \<longleftrightarrow> (\<forall>kn \<in> set xs. uniqueid (snd kn) = fst kn)"
  by (induction xs ys rule: list_all2_induct) (auto simp: sameFields_def)

lemma adjacencyOnly_keysMatch: "adjacencyOnly s s' \<Longrightarrow> keysMatch s' \<longleftrightarrow> keysMatch s"
  by (simp add: adjacencyOnly_def keysMatch_def list_all2_sameFields_keysMatch)

lemma adjacencyOnly_distinct:
  "adjacencyOnly s s' \<Longrightarrow> distinct (map fst (nodes s')) \<longleftrightarrow> distinct (map fst (nodes s))"
  by (simp add: adjacencyOnly_keys)

text \<open>With distinct keys the ids of the index are those the adjacency lists show.\<close>

lemma adjacentIds_iff:
  assumes "distinct (map fst (nodes s))"
  shows "x \<in> adjacentIds s \<longleftrightarrow> (\<exists>k l. x \<in> set (readLevel s k l))"
proof
  assume "x \<in> adjacentIds s"
  then obtain k n where kn: "(k, n) \<in> set (nodes s)" and x: "x \<in> levelIds (neighbors n)"
    by (auto simp: adjacentIds_def)
  from x obtain l ids where l: "nb_get (neighbors n) l = Some ids" "x \<in> set ids"
    unfolding levelIds_iff by blast
  have "getNode s k = Some n" using assms kn by (simp add: getNode_def)
  then have "readLevel s k l = ids" using l(1) by (simp add: readLevel_def neighborsAt_def nodeAt_def)
  then show "\<exists>k l. x \<in> set (readLevel s k l)" using l(2) by blast
next
  assume "\<exists>k l. x \<in> set (readLevel s k l)"
  then show "x \<in> adjacentIds s" using readLevel_subset by blast
qed

lemma closedAdjacency_iff:
  assumes "distinct (map fst (nodes s))"
  shows "closedAdjacency s \<longleftrightarrow>
         (\<forall>k l. \<forall>y \<in> set (readLevel s k l). y \<noteq> [] \<longrightarrow> getNode s y \<noteq> None)"
  unfolding closedAdjacency_def using adjacentIds_iff[OF assms] by blast

lemma wellFormed_setNeighbors:
  assumes "wellFormed s" and "\<forall>y \<in> set v. y \<noteq> [] \<longrightarrow> getNode s y \<noteq> None"
  shows "wellFormed (setNeighbors k l v s)"
proof -
  let ?s = "setNeighbors k l v s"
  have dk: "distinct (map fst (nodes s))" and km: "keysMatch s" and cl: "closedAdjacency s"
    using assms(1) by (auto simp: wellFormed_def)
  have dk': "distinct (map fst (nodes ?s))" using dk by simp
  have km': "keysMatch ?s" using km adjacencyOnly_keysMatch[OF adjacencyOnly_setNeighbors] by simp
  have "\<forall>k' l'. \<forall>y \<in> set (readLevel ?s k' l'). y \<noteq> [] \<longrightarrow> getNode ?s y \<noteq> None"
    using cl[unfolded closedAdjacency_iff[OF dk]] assms(2)
    by (auto simp: readLevel_setNeighbors)
  then have "closedAdjacency ?s" using closedAdjacency_iff[OF dk'] by simp
  then show ?thesis using dk' km' by (simp add: wellFormed_def)
qed

section \<open>Linking keeps the index well-formed\<close>

lemma keepsLevels_refl [simp]: "keepsLevels s s"
  by (simp add: keepsLevels_def)

lemma keepsLevels_trans: "keepsLevels s s' \<Longrightarrow> keepsLevels s' s'' \<Longrightarrow> keepsLevels s s''"
  by (simp add: keepsLevels_def)

lemma keepsLevels_setNeighbors [simp]: "keepsLevels s (setNeighbors k l v s)"
  by (simp add: keepsLevels_def neighborsAt_setNeighbors)

lemma keepsLevels_initLevel [simp]: "keepsLevels s (initLevel k l s)"
  by (simp add: keepsLevels_def neighborsAt_initLevel)

lemma initLevel_defined:
  "getNode s k \<noteq> None \<Longrightarrow> neighborsAt (initLevel k l s) k l \<noteq> None"
  by (auto simp: neighborsAt_initLevel)

lemma wellFormed_initLevel: "wellFormed s \<Longrightarrow> wellFormed (initLevel k l s)"
  by (auto simp: initLevel_def wellFormed_setNeighbors split: option.splits)

lemma wellFormed_closed:
  "wellFormed s \<Longrightarrow> y \<in> set (readLevel s k l) \<Longrightarrow> y \<noteq> [] \<Longrightarrow> getNode s y \<noteq> None"
  using closedAdjacency_iff[of s] by (auto simp: wellFormed_def)

text \<open>The statements of \<open>addBidirectionalConnections\<close>.\<close>

lemma filterEmptyIds_props:
  "adjacencyOnly s (filterEmptyIds k l s)"
  "keepsLevels s (filterEmptyIds k l s)"
  "wellFormed s \<Longrightarrow> wellFormed (filterEmptyIds k l s)"
  "readLevel (filterEmptyIds k l s) k' l' =
     (if k' = k \<and> getNode s k \<noteq> None \<and> l' = l then filter (\<lambda>u. u \<noteq> []) (readLevel s k l)
      else readLevel s k' l')"
proof -
  show "adjacencyOnly s (filterEmptyIds k l s)" by (simp add: filterEmptyIds_def)
  show "keepsLevels s (filterEmptyIds k l s)" by (simp add: filterEmptyIds_def)
  show "wellFormed s \<Longrightarrow> wellFormed (filterEmptyIds k l s)"
    unfolding filterEmptyIds_def by (rule wellFormed_setNeighbors) (auto dest: wellFormed_closed)
  show "readLevel (filterEmptyIds k l s) k' l' =
     (if k' = k \<and> getNode s k \<noteq> None \<and> l' = l then filter (\<lambda>u. u \<noteq> []) (readLevel s k l)
      else readLevel s k' l')"
    by (simp add: filterEmptyIds_def readLevel_setNeighbors)
qed

lemma pushIfAbsent_props:
  "adjacencyOnly s (pushIfAbsent k l other s)"
  "keepsLevels s (pushIfAbsent k l other s)"
  "wellFormed s \<Longrightarrow> getNode s other \<noteq> None \<Longrightarrow> wellFormed (pushIfAbsent k l other s)"
  "readLevel (pushIfAbsent k l other s) k' l' =
     (if k' = k \<and> getNode s k \<noteq> None \<and> l' = l \<and> uniqueid (nodeAt s other) \<notin> set (readLevel s k l)
      then readLevel s k l @ [uniqueid (nodeAt s other)]
      else readLevel s k' l')"
proof -
  show "adjacencyOnly s (pushIfAbsent k l other s)" by (simp add: pushIfAbsent_def)
  show "keepsLevels s (pushIfAbsent k l other s)" by (simp add: pushIfAbsent_def)
  show "wellFormed s \<Longrightarrow> getNode s other \<noteq> None \<Longrightarrow> wellFormed (pushIfAbsent k l other s)"
  proof -
    assume wf: "wellFormed s" and o: "getNode s other \<noteq> None"
    then have "uniqueid (nodeAt s other) = other" by (simp add: wellFormed_def keysMatch_nodeAt)
    then have "\<forall>y \<in> set (readLevel s k l @ [uniqueid (nodeAt s other)]). y \<noteq> [] \<longrightarrow> getNode s y \<noteq> None"
      using o wf by (auto dest: wellFormed_closed)
    then show ?thesis using wf by (simp add: pushIfAbsent_def wellFormed_setNeighbors)
  qed
  show "readLevel (pushIfAbsent k l other s) k' l' =
     (if k' = k \<and> getNode s k \<noteq> None \<and> l' = l \<and> uniqueid (nodeAt s other) \<notin> set (readLevel s k l)
      then readLevel s k l @ [uniqueid (nodeAt s other)]
      else readLevel s k' l')"
    by (simp add: pushIfAbsent_def readLevel_setNeighbors)
qed

lemma addBidirectionalConnections_props:
  assumes "wellFormed s" and "getNode s a \<noteq> None" and "getNode s b \<noteq> None"
  shows "wellFormed (addBidirectionalConnections a b l s)"
    and "adjacencyOnly s (addBidirectionalConnections a b l s)"
    and "keepsLevels s (addBidirectionalConnections a b l s)"
    and "neighborsAt (addBidirectionalConnections a b l s) a l \<noteq> None"
    and "neighborsAt (addBidirectionalConnections a b l s) b l \<noteq> None"
proof -
  let ?s1 = "initLevel a l s"
  let ?s2 = "initLevel b l ?s1"
  let ?s3 = "filterEmptyIds a l ?s2"
  let ?s4 = "filterEmptyIds b l ?s3"
  let ?s5 = "pushIfAbsent a l b ?s4"
  let ?s6 = "pushIfAbsent b l a ?s5"
  have eq: "addBidirectionalConnections a b l s = ?s6" by (simp add: addBidirectionalConnections_def)
  have a1: "adjacencyOnly s ?s1" by simp
  have a2: "adjacencyOnly s ?s2" by (rule adjacencyOnly_trans[OF a1]) simp
  have a3: "adjacencyOnly s ?s3" by (rule adjacencyOnly_trans[OF a2]) (rule filterEmptyIds_props)
  have a4: "adjacencyOnly s ?s4" by (rule adjacencyOnly_trans[OF a3]) (rule filterEmptyIds_props)
  have a5: "adjacencyOnly s ?s5" by (rule adjacencyOnly_trans[OF a4]) (rule pushIfAbsent_props)
  have a6: "adjacencyOnly s ?s6" by (rule adjacencyOnly_trans[OF a5]) (rule pushIfAbsent_props)
  have k1: "keepsLevels s ?s1" by simp
  have k2: "keepsLevels ?s1 ?s2" by simp
  have k3: "keepsLevels ?s2 ?s3" by (rule filterEmptyIds_props)
  have k4: "keepsLevels ?s3 ?s4" by (rule filterEmptyIds_props)
  have k5: "keepsLevels ?s4 ?s5" by (rule pushIfAbsent_props)
  have k6: "keepsLevels ?s5 ?s6" by (rule pushIfAbsent_props)
  have k26: "keepsLevels ?s2 ?s6"
    by (rule keepsLevels_trans[OF k3]) (rule keepsLevels_trans[OF k4], rule keepsLevels_trans[OF k5 k6])
  have w1: "wellFormed ?s1" using assms(1) by (rule wellFormed_initLevel)
  have w2: "wellFormed ?s2" using w1 by (rule wellFormed_initLevel)
  have w3: "wellFormed ?s3" using w2 by (rule filterEmptyIds_props)
  have w4: "wellFormed ?s4" using w3 by (rule filterEmptyIds_props)
  have g4: "getNode ?s4 b \<noteq> None" using assms(3) adjacencyOnly_getNode_None[OF a4] by simp
  have w5: "wellFormed ?s5" by (rule pushIfAbsent_props(3)[OF w4 g4])
  have g5: "getNode ?s5 a \<noteq> None" using assms(2) adjacencyOnly_getNode_None[OF a5] by simp
  have w6: "wellFormed ?s6" by (rule pushIfAbsent_props(3)[OF w5 g5])
  have d1: "neighborsAt ?s1 a l \<noteq> None" using assms(2) by (rule initLevel_defined)
  then have d2a: "neighborsAt ?s2 a l \<noteq> None" using k2 by (simp add: keepsLevels_def)
  have "getNode ?s1 b \<noteq> None" using assms(3) by simp
  then have d2b: "neighborsAt ?s2 b l \<noteq> None" by (rule initLevel_defined)
  show "wellFormed (addBidirectionalConnections a b l s)" using w6 eq by simp
  show "adjacencyOnly s (addBidirectionalConnections a b l s)" using a6 eq by simp
  show "keepsLevels s (addBidirectionalConnections a b l s)"
    using keepsLevels_trans[OF k1 keepsLevels_trans[OF k2 k26]] eq by simp
  show "neighborsAt (addBidirectionalConnections a b l s) a l \<noteq> None"
    using d2a k26 eq by (simp add: keepsLevels_def)
  show "neighborsAt (addBidirectionalConnections a b l s) b l \<noteq> None"
    using d2b k26 eq by (simp add: keepsLevels_def)
qed

section \<open>Shrinking and the loops over the levels\<close>



lemma linkNeighbors_props:
  assumes "wellFormed s" and "getNode s node \<noteq> None"
  shows "wellFormed (linkNeighbors node cs l s) \<and> adjacencyOnly s (linkNeighbors node cs l s)
         \<and> keepsLevels s (linkNeighbors node cs l s)
         \<and> (\<forall>c \<in> set cs. getNode s (uniqueid (nodeAt s c)) \<noteq> None \<longrightarrow>
               neighborsAt (linkNeighbors node cs l s) (uniqueid (nodeAt s c)) l \<noteq> None)"
  using assms
proof (induction cs arbitrary: s)
  case Nil
  then show ?case by simp
next
  case (Cons c cs)
  let ?b = "uniqueid (nodeAt s c)"
  show ?case
  proof (cases "getNode s ?b")
    case None
    then show ?thesis using Cons.IH[OF Cons.prems] by simp
  next
    case (Some nb)
    let ?s1 = "addBidirectionalConnections node ?b l s"
    have b: "getNode s ?b \<noteq> None" using Some by simp
    note ab = addBidirectionalConnections_props[OF Cons.prems(1) Cons.prems(2) b, of l]
    have g1: "getNode ?s1 node \<noteq> None"
      using Cons.prems(2) adjacencyOnly_getNode_None[OF ab(2)] by simp
    from Cons.IH[OF ab(1) g1]
    have ih: "wellFormed (linkNeighbors node cs l ?s1)" "adjacencyOnly ?s1 (linkNeighbors node cs l ?s1)"
      "keepsLevels ?s1 (linkNeighbors node cs l ?s1)"
      "\<forall>c \<in> set cs. getNode ?s1 (uniqueid (nodeAt ?s1 c)) \<noteq> None \<longrightarrow>
               neighborsAt (linkNeighbors node cs l ?s1) (uniqueid (nodeAt ?s1 c)) l \<noteq> None"
      by auto
    have eq: "linkNeighbors node (c # cs) l s = linkNeighbors node cs l ?s1" using Some by simp
    have "neighborsAt (linkNeighbors node cs l ?s1) ?b l \<noteq> None"
      using ab(5) ih(3) by (simp add: keepsLevels_def)
    moreover have "\<forall>c \<in> set cs. getNode s (uniqueid (nodeAt s c)) \<noteq> None \<longrightarrow>
               neighborsAt (linkNeighbors node cs l ?s1) (uniqueid (nodeAt s c)) l \<noteq> None"
      using ih(4) adjacencyOnly_getNode_None[OF ab(2)] adjacencyOnly_nodeAt(1)[OF ab(2)] by simp
    ultimately show ?thesis
      using eq ih(1) adjacencyOnly_trans[OF ab(2) ih(2)] keepsLevels_trans[OF ab(3) ih(3)] by simp
  qed
qed


lemma frame_wellFormed:
  assumes "unchangedButInitialised s s'"
  shows "wellFormed s' \<longleftrightarrow> wellFormed s"
proof -
  note a = unchangedButInitialised_adjacencyOnly[OF assms]
  show ?thesis
    by (simp add: wellFormed_def adjacencyOnly_keys[OF a] adjacencyOnly_keysMatch[OF a]
          frame_closedAdjacency[OF assms])
qed


lemma descend_props:
  assumes "closedAdjacency s" and "\<forall>ep \<in> set eps. getNode s ep \<noteq> None"
  shows "\<exists>eps' s'. descend q levels eps s = (Ok eps', s') \<and> unchangedButInitialised s s'
           \<and> (\<forall>ep \<in> set eps'. getNode s ep \<noteq> None)"
  using assms
proof (induction levels arbitrary: eps s)
  case Nil
  then show ?case by simp
next
  case (Cons i levels)
  from searchLayer_ok[OF Cons.prems, of q 1 "nat i"]
  obtain found s1 where sl: "searchLayer q eps 1 (nat i) s = (Ok found, s1)"
    and rf: "\<forall>x \<in> set found. getNode s x \<noteq> None" by blast
  have fr: "unchangedButInitialised s s1" using sl by (rule searchLayer_frame)
  have cl: "closedAdjacency s1" using Cons.prems(1) frame_closedAdjacency[OF fr] by simp
  let ?eps = "case popFirst found of (None, rest) \<Rightarrow> eps | (Some c, rest) \<Rightarrow> [c]"
  have "\<forall>ep \<in> set ?eps. getNode s ep \<noteq> None"
    using rf Cons.prems(2) by (cases found) (auto simp: popFirst_def)
  then have "\<forall>ep \<in> set ?eps. getNode s1 ep \<noteq> None" using frame_getNode_None[OF fr] by simp
  from Cons.IH[OF cl this]
  obtain eps' s' where rec: "descend q levels ?eps s1 = (Ok eps', s')"
    and fr2: "unchangedButInitialised s1 s'" and re: "\<forall>ep \<in> set eps'. getNode s1 ep \<noteq> None" by blast
  have "descend q (i # levels) eps s = (Ok eps', s')"
    using sl rec by (cases found) (auto simp: popFirst_def)
  then show ?case
    using unchangedButInitialised_trans[OF fr fr2] re frame_getNode_None[OF fr] by auto
qed

section \<open>Insertion keeps the index well-formed\<close>

lemma set_update_subset: "set (AList.update k v al) \<subseteq> insert (k, v) (set al)"
  by (induction al) auto

lemma getNode_storeNode:
  "getNode (storeNode uid v lvl s) k =
     (if k = uid
      then Some \<lparr> uniqueid = uid, level = lvl, vector = v, neighbors = [], deleted = False \<rparr>
      else getNode s k)"
  by (simp add: getNode_def storeNode_def update_conv')

lemma readLevel_storeNode:
  "readLevel (storeNode uid v lvl s) k l = (if k = uid then [] else readLevel s k l)"
  by (simp add: readLevel_def neighborsAt_def nodeAt_def getNode_storeNode nb_get_def)

lemma keys_storeNode:
  "map fst (nodes (storeNode uid v lvl s)) =
     (if uid \<in> set (map fst (nodes s)) then map fst (nodes s) else map fst (nodes s) @ [uid])"
  by (simp add: storeNode_def update_keys)

lemma wellFormed_storeNode:
  assumes "wellFormed s"
  shows "wellFormed (storeNode uid v lvl s)"
proof -
  let ?s = "storeNode uid v lvl s"
  have dk: "distinct (map fst (nodes s))" and km: "keysMatch s" and cl: "closedAdjacency s"
    using assms by (auto simp: wellFormed_def)
  have dk': "distinct (map fst (nodes ?s))" using dk by (simp add: storeNode_def distinct_update)
  have km': "keysMatch ?s"
    using km set_update_subset[of uid _ "nodes s"] by (fastforce simp: keysMatch_def storeNode_def)
  have "\<forall>k l. \<forall>y \<in> set (readLevel ?s k l). y \<noteq> [] \<longrightarrow> getNode ?s y \<noteq> None"
    using cl[unfolded closedAdjacency_iff[OF dk]]
    by (auto simp: readLevel_storeNode getNode_storeNode)
  then have "closedAdjacency ?s" using closedAdjacency_iff[OF dk'] by simp
  then show ?thesis using dk' km' by (simp add: wellFormed_def)
qed

lemma adjacentIds_fields [simp]:
  "adjacentIds (s\<lparr>entryPointId := e\<rparr>) = adjacentIds s"
  "adjacentIds (s\<lparr>levelMax := m\<rparr>) = adjacentIds s"
  "adjacentIds (s\<lparr>d := dm\<rparr>) = adjacentIds s"
  by (simp_all add: adjacentIds_def)

lemma getNode_fields [simp]:
  "getNode (s\<lparr>entryPointId := e\<rparr>) = getNode s"
  "getNode (s\<lparr>levelMax := m\<rparr>) = getNode s"
  "getNode (s\<lparr>d := dm\<rparr>) = getNode s"
  by (simp_all add: getNode_def fun_eq_iff)

lemma nodeAt_fields [simp]:
  "nodeAt (s\<lparr>entryPointId := e\<rparr>) = nodeAt s"
  "nodeAt (s\<lparr>levelMax := m\<rparr>) = nodeAt s"
  "nodeAt (s\<lparr>d := dm\<rparr>) = nodeAt s"
  by (simp_all add: nodeAt_def fun_eq_iff)

lemma wellFormed_fields [simp]:
  "wellFormed (s\<lparr>entryPointId := e\<rparr>) = wellFormed s"
  "wellFormed (s\<lparr>levelMax := m\<rparr>) = wellFormed s"
  "wellFormed (s\<lparr>d := dm\<rparr>) = wellFormed s"
  by (simp_all add: wellFormed_def keysMatch_def closedAdjacency_def)

lemma adjacencyOnly_nodes: "adjacencyOnly s s' \<Longrightarrow> list_all2 sameFields (nodes s) (nodes s')"
  by (simp add: adjacencyOnly_def)



section \<open>Insertion under an id that is already stored\<close>







section \<open>Invariants in terms of the adjacency lists\<close>

lemma readLevel_nonempty:
  "readLevel s k l \<noteq> [] \<Longrightarrow> \<exists>n. getNode s k = Some n \<and> l < length (neighbors n)"
  by (auto simp: readLevel_def neighborsAt_def nodeAt_def nb_get_def split: option.splits if_splits)

lemma mem_readLevel:
  "y \<in> set (readLevel s k l) \<Longrightarrow> \<exists>n. getNode s k = Some n \<and> l < length (neighbors n)"
proof -
  assume "y \<in> set (readLevel s k l)"
  then have "readLevel s k l \<noteq> []" by auto
  then show ?thesis by (rule readLevel_nonempty)
qed

lemma mem_nodes_iff:
  "distinct (map fst (nodes s)) \<Longrightarrow> (k, n) \<in> set (nodes s) \<longleftrightarrow> getNode s k = Some n"
  by (auto simp: getNode_def dest: map_of_SomeD)

lemma noSelfLoops_iff:
  assumes "distinct (map fst (nodes s))"
  shows "noSelfLoops s \<longleftrightarrow> (\<forall>k l. k \<notin> set (readLevel s k l))"
proof
  assume h: "noSelfLoops s"
  show "\<forall>k l. k \<notin> set (readLevel s k l)"
  proof (intro allI notI)
    fix k l assume m: "k \<in> set (readLevel s k l)"
    then obtain n where n: "getNode s k = Some n" "l < length (neighbors n)"
      using mem_readLevel by blast
    then have "(k, n) \<in> set (nodes s)" using assms by (simp add: mem_nodes_iff)
    then show False using h n(2) m by (force simp: noSelfLoops_def)
  qed
next
  assume "\<forall>k l. k \<notin> set (readLevel s k l)"
  then show "noSelfLoops s" by (simp add: noSelfLoops_def)
qed

lemma listsDistinct_iff:
  assumes "distinct (map fst (nodes s))"
  shows "listsDistinct s \<longleftrightarrow> (\<forall>k l. distinct (readLevel s k l))"
proof
  assume h: "listsDistinct s"
  show "\<forall>k l. distinct (readLevel s k l)"
  proof (intro allI)
    fix k l
    show "distinct (readLevel s k l)"
    proof (cases "readLevel s k l = []")
      case True
      then show ?thesis by simp
    next
      case False
      then obtain n where n: "getNode s k = Some n" "l < length (neighbors n)"
        using readLevel_nonempty by blast
      then have "(k, n) \<in> set (nodes s)" using assms by (simp add: mem_nodes_iff)
      then show ?thesis using h n(2) by (force simp: listsDistinct_def)
    qed
  qed
next
  assume "\<forall>k l. distinct (readLevel s k l)"
  then show "listsDistinct s" by (simp add: listsDistinct_def)
qed

lemma symmetricAdjacency_iff:
  assumes "distinct (map fst (nodes s))"
  shows "symmetricAdjacency s \<longleftrightarrow>
         (\<forall>k n l y. getNode s k = Some n \<and> \<not> deleted n \<and> int l \<le> level n
                     \<and> y \<in> set (readLevel s k l)
                  \<longrightarrow> getNode s y \<noteq> None \<and> k \<in> set (readLevel s y l))"
proof
  assume h: "symmetricAdjacency s"
  show "\<forall>k n l y. getNode s k = Some n \<and> \<not> deleted n \<and> int l \<le> level n
                     \<and> y \<in> set (readLevel s k l)
                  \<longrightarrow> getNode s y \<noteq> None \<and> k \<in> set (readLevel s y l)"
  proof (intro allI impI)
    fix k n l y
    assume a: "getNode s k = Some n \<and> \<not> deleted n \<and> int l \<le> level n \<and> y \<in> set (readLevel s k l)"
    then have "l < length (neighbors n)" using mem_readLevel[of y s k l] by auto
    moreover have "(k, n) \<in> set (nodes s)" using a assms by (simp add: mem_nodes_iff)
    ultimately show "getNode s y \<noteq> None \<and> k \<in> set (readLevel s y l)"
      using h a unfolding symmetricAdjacency_def by force
  qed
next
  assume h: "\<forall>k n l y. getNode s k = Some n \<and> \<not> deleted n \<and> int l \<le> level n
                     \<and> y \<in> set (readLevel s k l)
                  \<longrightarrow> getNode s y \<noteq> None \<and> k \<in> set (readLevel s y l)"
  show "symmetricAdjacency s"
    unfolding symmetricAdjacency_def
  proof (intro ballI impI)
    fix kn l y
    assume a: "kn \<in> set (nodes s)" "\<not> deleted (snd kn)" "int l \<le> level (snd kn)"
      "y \<in> set (readLevel s (fst kn) l)"
    then have "getNode s (fst kn) = Some (snd kn)" using assms mem_nodes_iff[of s "fst kn" "snd kn"] by simp
    then show "getNode s y \<noteq> None \<and> fst kn \<in> set (readLevel s y l)" using h a by blast
  qed
qed

lemma frame_readLevel: "unchangedButInitialised s s' \<Longrightarrow> readLevel s' k l = readLevel s k l"
proof -
  assume fr: "unchangedButInitialised s s'"
  have "materialised (neighbors (nodeAt s k)) (neighbors (nodeAt s' k))"
    using frame_nodeAt[OF fr, of k] by (simp add: sameNode_def)
  from materialisedD[OF this, of l] show ?thesis
    by (auto simp: readLevel_def neighborsAt_def)
qed

lemma graphInvariant_iff: "graphInvariant s \<longleftrightarrow> linkInvariant s \<and> entryResolves s"
proof (cases "wellFormed s")
  case False
  then show ?thesis by (simp add: graphInvariant_def linkInvariant_def)
next
  case True
  then have dk: "distinct (map fst (nodes s))" by (simp add: wellFormed_def)
  have ne: "[] \<notin> adjacentIds s \<longleftrightarrow> (\<forall>k l. [] \<notin> set (readLevel s k l))"
    using adjacentIds_iff[OF dk, of "[]"] by blast
  have sym: "[] \<notin> adjacentIds s \<Longrightarrow>
      symmetricAdjacency s \<longleftrightarrow>
      (\<forall>k l y. getNode s k \<noteq> None \<and> \<not> deleted (nodeAt s k) \<and> int l \<le> level (nodeAt s k)
                \<and> y \<in> set (readLevel s k l)
             \<longrightarrow> k \<in> set (readLevel s y l))"
  proof -
    assume e: "[] \<notin> adjacentIds s"
    have res: "\<And>k l y. y \<in> set (readLevel s k l) \<Longrightarrow> getNode s y \<noteq> None"
    proof -
      fix k l y assume m: "y \<in> set (readLevel s k l)"
      then have "y \<noteq> []" using e ne by auto
      then show "getNode s y \<noteq> None" using wellFormed_closed[OF True m] by simp
    qed
    show ?thesis
      unfolding symmetricAdjacency_iff[OF dk]
    proof
      assume h: "\<forall>k n l y. getNode s k = Some n \<and> \<not> deleted n \<and> int l \<le> level n
                     \<and> y \<in> set (readLevel s k l)
                  \<longrightarrow> getNode s y \<noteq> None \<and> k \<in> set (readLevel s y l)"
      show "\<forall>k l y. getNode s k \<noteq> None \<and> \<not> deleted (nodeAt s k) \<and> int l \<le> level (nodeAt s k)
                \<and> y \<in> set (readLevel s k l)
             \<longrightarrow> k \<in> set (readLevel s y l)"
      proof (intro allI impI)
        fix k l y
        assume a: "getNode s k \<noteq> None \<and> \<not> deleted (nodeAt s k) \<and> int l \<le> level (nodeAt s k)
                \<and> y \<in> set (readLevel s k l)"
        then obtain n where n: "getNode s k = Some n" by auto
        then have "nodeAt s k = n" by (simp add: nodeAt_def)
        then show "k \<in> set (readLevel s y l)" using h n a by blast
      qed
    next
      assume h: "\<forall>k l y. getNode s k \<noteq> None \<and> \<not> deleted (nodeAt s k) \<and> int l \<le> level (nodeAt s k)
                \<and> y \<in> set (readLevel s k l)
             \<longrightarrow> k \<in> set (readLevel s y l)"
      show "\<forall>k n l y. getNode s k = Some n \<and> \<not> deleted n \<and> int l \<le> level n
                     \<and> y \<in> set (readLevel s k l)
                  \<longrightarrow> getNode s y \<noteq> None \<and> k \<in> set (readLevel s y l)"
      proof (intro allI impI)
        fix k n l y
        assume a: "getNode s k = Some n \<and> \<not> deleted n \<and> int l \<le> level n
                     \<and> y \<in> set (readLevel s k l)"
        then have "nodeAt s k = n" by (simp add: nodeAt_def)
        then have "k \<in> set (readLevel s y l)" using h a by auto
        then show "getNode s y \<noteq> None \<and> k \<in> set (readLevel s y l)" using res a by blast
      qed
    qed
  qed
  show ?thesis
    unfolding graphInvariant_def linkInvariant_def listsDistinct_iff[OF dk] noSelfLoops_iff[OF dk]
    using ne sym by auto
qed

lemma frame_linkInvariant:
  assumes "unchangedButInitialised s s'"
  shows "linkInvariant s' \<longleftrightarrow> linkInvariant s"
proof -
  note a = unchangedButInitialised_adjacencyOnly[OF assms]
  show ?thesis
    unfolding linkInvariant_def
    by (simp add: frame_wellFormed[OF assms] adjacencyOnly_keys[OF a] frame_readLevel[OF assms]
          adjacencyOnly_getNode_None[OF a] adjacencyOnly_nodeAt[OF a])
qed

section \<open>Linking keeps the adjacency symmetric\<close>

lemma linkInvariant_wellFormed: "linkInvariant s \<Longrightarrow> wellFormed s"
  by (simp add: linkInvariant_def)

lemma linkInvariant_resolved:
  assumes "linkInvariant s" and "y \<in> set (readLevel s k l)"
  shows "getNode s y \<noteq> None"
proof -
  have "y \<noteq> []" using assms by (auto simp: linkInvariant_def)
  then show ?thesis using wellFormed_closed[OF linkInvariant_wellFormed[OF assms(1)] assms(2)] by simp
qed

lemma resolved_key_nonempty:
  assumes "linkInvariant s" and "getNode s k \<noteq> None"
  shows "k \<noteq> []"
proof
  assume "k = []"
  then have "[] \<in> set (map fst (nodes s))" using assms(2) by (simp add: getNode_None_iff)
  then show False using assms(1) by (simp add: linkInvariant_def)
qed

lemma filter_nonempty_ident: "[] \<notin> set xs \<Longrightarrow> filter (\<lambda>u. u \<noteq> []) xs = xs"
  by (induction xs) auto

text \<open>
  The adjacency lists after \<open>addBidirectionalConnections\<close> of two different stored nodes:
  each has the other appended to its list at the level unless it was there.
\<close>

lemma addBidirectionalConnections_readLevel:
  assumes "linkInvariant s" and "getNode s a \<noteq> None" and "getNode s b \<noteq> None" and "a \<noteq> b"
  shows "readLevel (addBidirectionalConnections a b l s) k l' =
           (if l' = l \<and> k = a
            then (if b \<in> set (readLevel s a l) then readLevel s a l else readLevel s a l @ [b])
            else if l' = l \<and> k = b
            then (if a \<in> set (readLevel s b l) then readLevel s b l else readLevel s b l @ [a])
            else readLevel s k l')"
proof -
  let ?s1 = "initLevel a l s"
  let ?s2 = "initLevel b l ?s1"
  let ?s3 = "filterEmptyIds a l ?s2"
  let ?s4 = "filterEmptyIds b l ?s3"
  let ?s5 = "pushIfAbsent a l b ?s4"
  have wf: "wellFormed s" using assms(1) by (rule linkInvariant_wellFormed)
  have km: "keysMatch s" using wf by (simp add: wellFormed_def)
  have ne: "\<And>k l. filter (\<lambda>u. u \<noteq> []) (readLevel s k l) = readLevel s k l"
    using assms(1) by (intro filter_nonempty_ident) (simp add: linkInvariant_def)
  have a2: "adjacencyOnly s ?s2" by (rule adjacencyOnly_trans[of s ?s1]) simp_all
  have a3: "adjacencyOnly s ?s3" by (rule adjacencyOnly_trans[OF a2]) (rule filterEmptyIds_props)
  have a4: "adjacencyOnly s ?s4" by (rule adjacencyOnly_trans[OF a3]) (rule filterEmptyIds_props)
  have a5: "adjacencyOnly s ?s5" by (rule adjacencyOnly_trans[OF a4]) (rule pushIfAbsent_props)
  have r3: "\<And>k l'. readLevel ?s3 k l' = readLevel s k l'"
    by (simp add: filterEmptyIds_props(4) ne)
  have r4: "\<And>k l'. readLevel ?s4 k l' = readLevel s k l'"
    by (simp add: filterEmptyIds_props(4)[of b l ?s3] r3 ne)
  have ub: "uniqueid (nodeAt ?s4 b) = b"
    using adjacencyOnly_nodeAt(1)[OF a4, of b] keysMatch_nodeAt[OF km assms(3)] by simp
  have ua: "uniqueid (nodeAt ?s5 a) = a"
    using adjacencyOnly_nodeAt(1)[OF a5, of a] keysMatch_nodeAt[OF km assms(2)] by simp
  have g4: "getNode ?s4 a \<noteq> None" using assms(2) adjacencyOnly_getNode_None[OF a4] by simp
  have g5: "getNode ?s5 b \<noteq> None" using assms(3) adjacencyOnly_getNode_None[OF a5] by simp
  have r5: "\<And>k l'. readLevel ?s5 k l' =
              (if l' = l \<and> k = a \<and> b \<notin> set (readLevel s a l) then readLevel s a l @ [b]
               else readLevel s k l')"
    using g4 by (simp add: pushIfAbsent_props(4)[of a l b ?s4] ub r4)
  have "readLevel (pushIfAbsent b l a ?s5) k l' =
           (if l' = l \<and> k = a
            then (if b \<in> set (readLevel s a l) then readLevel s a l else readLevel s a l @ [b])
            else if l' = l \<and> k = b
            then (if a \<in> set (readLevel s b l) then readLevel s b l else readLevel s b l @ [a])
            else readLevel s k l')"
    using g5 assms(4) by (simp add: pushIfAbsent_props(4)[of b l a ?s5] ua r5)
  then show ?thesis by (simp add: addBidirectionalConnections_def)
qed

lemma addBidirectionalConnections_linkInvariant:
  assumes "linkInvariant s" and "getNode s a \<noteq> None" and "getNode s b \<noteq> None" and "a \<noteq> b"
  shows "linkInvariant (addBidirectionalConnections a b l s)"
proof -
  let ?s = "addBidirectionalConnections a b l s"
  note wf = linkInvariant_wellFormed[OF assms(1)]
  note ab = addBidirectionalConnections_props[OF wf assms(2,3), of l]
  note rl = addBidirectionalConnections_readLevel[OF assms, of l]
  have an: "a \<noteq> []" "b \<noteq> []" using assms(1,2,3) by (auto dest: resolved_key_nonempty)
  have I: "\<forall>k l. [] \<notin> set (readLevel s k l)" "\<forall>k l. distinct (readLevel s k l)"
    "\<forall>k l. k \<notin> set (readLevel s k l)"
    "\<forall>k l y. getNode s k \<noteq> None \<and> \<not> deleted (nodeAt s k) \<and> int l \<le> level (nodeAt s k)
                \<and> y \<in> set (readLevel s k l)
             \<longrightarrow> k \<in> set (readLevel s y l)"
    using assms(1) by (auto simp: linkInvariant_def)
  have p1: "[] \<notin> set (map fst (nodes ?s))"
    using assms(1) adjacencyOnly_keys[OF ab(2)] by (simp add: linkInvariant_def)
  have p2: "\<forall>k l'. [] \<notin> set (readLevel ?s k l')" using I(1) an by (simp add: rl)
  have p3: "\<forall>k l'. distinct (readLevel ?s k l')" using I(2) by (simp add: rl)
  have p4: "\<forall>k l'. k \<notin> set (readLevel ?s k l')" using I(3) assms(4) by (auto simp: rl)
  have p5: "\<forall>k l' y. getNode ?s k \<noteq> None \<and> \<not> deleted (nodeAt ?s k) \<and> int l' \<le> level (nodeAt ?s k)
                \<and> y \<in> set (readLevel ?s k l')
             \<longrightarrow> k \<in> set (readLevel ?s y l')"
  proof (intro allI impI)
    fix k l' y
    assume h: "getNode ?s k \<noteq> None \<and> \<not> deleted (nodeAt ?s k) \<and> int l' \<le> level (nodeAt ?s k)
                \<and> y \<in> set (readLevel ?s k l')"
    then have pre: "getNode s k \<noteq> None" "\<not> deleted (nodeAt s k)" "int l' \<le> level (nodeAt s k)"
      using adjacencyOnly_getNode_None[OF ab(2)] adjacencyOnly_nodeAt[OF ab(2)] by auto
    have grow: "\<And>k. set (readLevel s k l') \<subseteq> set (readLevel ?s k l')" by (auto simp: rl)
    from h have "y \<in> set (readLevel s k l') \<or> (l' = l \<and> k = a \<and> y = b) \<or> (l' = l \<and> k = b \<and> y = a)"
      by (auto simp: rl split: if_splits)
    then show "k \<in> set (readLevel ?s y l')"
    proof (elim disjE)
      assume "y \<in> set (readLevel s k l')"
      then have "k \<in> set (readLevel s y l')" using I(4) pre by blast
      then show ?thesis using grow by blast
    next
      assume "l' = l \<and> k = a \<and> y = b"
      then show ?thesis using assms(4) by (simp add: rl)
    next
      assume "l' = l \<and> k = b \<and> y = a"
      then show ?thesis by (simp add: rl)
    qed
  qed
  show ?thesis unfolding linkInvariant_def using ab(1) p1 p2 p3 p4 p5 by blast
qed

section \<open>No shrinking in a small index; what a layer search finds\<close>

lemma linkNeighbors_linkInvariant:
  assumes "linkInvariant s" and "getNode s z \<noteq> None"
    and "\<forall>c \<in> set cs. getNode s c \<noteq> None \<and> c \<noteq> z"
  shows "linkInvariant (linkNeighbors z cs l s)
         \<and> (\<forall>k l'. l' \<noteq> l \<longrightarrow> readLevel (linkNeighbors z cs l s) k l' = readLevel s k l')"
  using assms
proof (induction cs arbitrary: s)
  case Nil
  then show ?case by simp
next
  case (Cons c cs)
  note wf = linkInvariant_wellFormed[OF Cons.prems(1)]
  have c: "getNode s c \<noteq> None" "c \<noteq> z" using Cons.prems(3) by auto
  have uc: "uniqueid (nodeAt s c) = c" using wf c(1) by (simp add: wellFormed_def keysMatch_nodeAt)
  let ?s1 = "addBidirectionalConnections z c l s"
  have zc: "z \<noteq> c" using c(2) by simp
  note ab = addBidirectionalConnections_props[OF wf Cons.prems(2) c(1), of l]
  have li: "linkInvariant ?s1"
    by (rule addBidirectionalConnections_linkInvariant[OF Cons.prems(1,2) c(1) zc])
  have z1: "getNode ?s1 z \<noteq> None" using Cons.prems(2) adjacencyOnly_getNode_None[OF ab(2)] by simp
  have cs1: "\<forall>c \<in> set cs. getNode ?s1 c \<noteq> None \<and> c \<noteq> z"
    using Cons.prems(3) adjacencyOnly_getNode_None[OF ab(2)] by simp
  from Cons.IH[OF li z1 cs1]
  have ih: "linkInvariant (linkNeighbors z cs l ?s1)"
    "\<forall>k l'. l' \<noteq> l \<longrightarrow> readLevel (linkNeighbors z cs l ?s1) k l' = readLevel ?s1 k l'" by auto
  have eq: "linkNeighbors z (c # cs) l s = linkNeighbors z cs l ?s1" using c(1) uc by auto
  have "\<forall>k l'. l' \<noteq> l \<longrightarrow> readLevel ?s1 k l' = readLevel s k l'"
    by (simp add: addBidirectionalConnections_readLevel[OF Cons.prems(1,2) c(1) zc])
  then show ?case using eq ih by simp
qed

lemma card_keys: "distinct (map fst (nodes s)) \<Longrightarrow> card (set (map fst (nodes s))) = length (nodes s)"
  using distinct_card[of "map fst (nodes s)"] by simp

text \<open>
  While the index holds at most \<open>M + 1\<close> nodes no adjacency list is longer than \<open>M\<close>, and
  \<open>shrinkConnectionsIfNeeded\<close> changes nothing.
\<close>

lemma shrinkConnectionsIfNeeded_noop:
  assumes "linkInvariant s" and "neighborsAt s c l \<noteq> None"
    and "int (length (nodes s)) - 1 \<le> M s"
  shows "shrinkConnectionsIfNeeded c l s = (Ok (), s)"
proof -
  from assms(2) obtain nbrs where nb: "neighborsAt s c l = Some nbrs" by auto
  then have rl: "readLevel s c l = nbrs" by (simp add: readLevel_def)
  have c: "getNode s c \<noteq> None"
    using nb by (auto simp: neighborsAt_def nodeAt_def nb_get_def split: option.splits)
  note wf = linkInvariant_wellFormed[OF assms(1)]
  have dk: "distinct (map fst (nodes s))" using wf by (simp add: wellFormed_def)
  have dn: "distinct nbrs" using assms(1) rl by (auto simp: linkInvariant_def)
  have "set nbrs \<subseteq> set (map fst (nodes s)) - {c}"
  proof
    fix y assume y: "y \<in> set nbrs"
    then have "getNode s y \<noteq> None" using linkInvariant_resolved[OF assms(1), of y c l] rl by simp
    moreover have "y \<noteq> c" using assms(1) rl y by (auto simp: linkInvariant_def)
    ultimately show "y \<in> set (map fst (nodes s)) - {c}" by (simp add: getNode_None_iff)
  qed
  then have "card (set nbrs) \<le> card (set (map fst (nodes s)) - {c})"
    by (intro card_mono) auto
  moreover have "card (set (map fst (nodes s)) - {c}) = length (nodes s) - 1"
    using c card_keys[OF dk] by (simp add: getNode_None_iff)
  moreover have "card (set nbrs) = length nbrs" using dn by (rule distinct_card)
  moreover have "0 < length (nodes s)" using c by (auto simp: getNode_None_iff)
  ultimately have "length nbrs + 1 \<le> length (nodes s)" by arith
  then have "int (length nbrs) \<le> int (length (nodes s)) - 1" by linarith
  then have "\<not> int (length nbrs) > M s" using assms(3) by linarith
  then show ?thesis using nb by (simp add: shrinkConnectionsIfNeeded_def)
qed

lemma shrinkNeighbors_noop:
  assumes "linkInvariant s" and "int (length (nodes s)) - 1 \<le> M s"
    and "\<forall>c \<in> set cs. getNode s (uniqueid (nodeAt s c)) \<noteq> None \<longrightarrow>
           neighborsAt s (uniqueid (nodeAt s c)) l \<noteq> None"
  shows "shrinkNeighbors cs l s = (Ok (), s)"
  using assms(3)
proof (induction cs)
  case Nil
  then show ?case by simp
next
  case (Cons c cs)
  show ?case
  proof (cases "getNode s (uniqueid (nodeAt s c))")
    case None
    then show ?thesis using Cons by simp
  next
    case (Some nb)
    then have "neighborsAt s (uniqueid (nodeAt s c)) l \<noteq> None" using Cons.prems by simp
    from shrinkConnectionsIfNeeded_noop[OF assms(1) this assms(2)]
    show ?thesis using Some Cons by simp
  qed
qed

text \<open>A layer search finds entry points and ids listed at its level, nothing else.\<close>

lemma visitNeighbors_subset:
  "visitNeighbors s q ef ids (V, C, W) = Ok (V', C', W')
   \<Longrightarrow> set C' \<subseteq> set C \<union> set ids \<and> set W' \<subseteq> set W \<union> set ids"
proof (induction ids arbitrary: V C W)
  case Nil
  then show ?case by simp
next
  case (Cons i ids)
  show ?case
  proof (cases "i \<noteq> [] \<and> i \<notin> V")
    case False
    then have "visitNeighbors s q ef ids (V, C, W) = Ok (V', C', W')" using Cons.prems by auto
    from Cons.IH[OF this] show ?thesis by auto
  next
    case True
    then obtain nb where nb: "getNode s i = Some nb"
      using Cons.prems by (auto split: option.splits)
    from Cons.prems True nb obtain acc where acc: "acceptNeighbor s q ef nb W = Ok acc"
      by (auto split: result.splits)
    show ?thesis
    proof (cases acc)
      case t: True
      then have "visitNeighbors s q ef ids (insert i V, push (bySimilarity s q) i C,
              pushFound (bySimilarity s q) ef i W) = Ok (V', C', W')"
        using Cons.prems True nb acc by simp
      from Cons.IH[OF this] pushFound_props(2)[of "bySimilarity s q" ef i W]
      show ?thesis by auto
    next
      case f: False
      then have "visitNeighbors s q ef ids (insert i V, C, W) = Ok (V', C', W')"
        using Cons.prems True nb acc by simp
      from Cons.IH[OF this] show ?thesis by auto
    qed
  qed
qed

lemma searchLoop_subset:
  "searchLoop q ef lvl (V, C, W) s = (Ok W', s')
   \<Longrightarrow> set W' \<subseteq> set C \<union> set W \<union> {x. \<exists>k. x \<in> set (readLevel s k lvl)}"
proof (induction q ef lvl "(V, C, W)" s arbitrary: V C W rule: searchLoop.induct)
  case (1 q ef lvl V C W s)
  show ?case
  proof (cases C)
    case Nil
    then show ?thesis using "1.prems" by (simp add: searchLoop.simps)
  next
    case (Cons current C')
    show ?thesis
    proof (cases "getLast W")
      case None
      then show ?thesis using "1.prems" Cons by (simp add: searchLoop.simps)
    next
      case (Some furthest)
      show ?thesis
      proof (cases "similarityFunction s q (vector (nodeAt s current))
                    < similarityFunction s q (vector (nodeAt s furthest))")
        case True
        then show ?thesis using "1.prems" Cons Some by (auto simp: searchLoop.simps)
      next
        case False
        let ?s = "initLevel current lvl s"
        show ?thesis
        proof (cases "visitNeighbors ?s q ef (readLevel ?s current lvl) (V, C', W)")
          case (Throw e)
          then show ?thesis using "1.prems" Cons Some False by (simp add: searchLoop.simps)
        next
          case (Ok st)
          obtain V1 C1 W1 where st: "st = (V1, C1, W1)" by (cases st)
          have rec: "searchLoop q ef lvl (V1, C1, W1) ?s = (Ok W', s')"
            using "1.prems" Cons Some False Ok st by (simp add: searchLoop.simps)
          from "1.hyps"[OF Cons Some False Ok[unfolded st] rec]
          have a: "set W' \<subseteq> set C1 \<union> set W1 \<union> {x. \<exists>k. x \<in> set (readLevel s k lvl)}" by simp
          from visitNeighbors_subset[OF Ok[unfolded st]]
          have b: "set C1 \<subseteq> set C' \<union> set (readLevel s current lvl)"
            "set W1 \<subseteq> set W \<union> set (readLevel s current lvl)" by auto
          show ?thesis using a b Cons by auto
        qed
      qed
    qed
  qed
qed

lemma seedEntryPoints_subset:
  "seedEntryPoints s q eps (V, C, W) = Ok (V', C', W')
   \<Longrightarrow> set C' \<subseteq> set C \<union> set eps \<and> set W' \<subseteq> set W \<union> set eps"
proof (induction eps arbitrary: V C W)
  case Nil
  then show ?case by simp
next
  case (Cons ep eps)
  then obtain n where n: "getNode s ep = Some n" by (auto split: option.splits)
  show ?case
  proof (cases "uniqueid n \<in> V")
    case True
    then have "seedEntryPoints s q eps (V, C, W) = Ok (V', C', W')" using Cons.prems n by simp
    from Cons.IH[OF this] show ?thesis by auto
  next
    case False
    then have "seedEntryPoints s q eps (insert (uniqueid n) V, push (bySimilarity s q) ep C,
                 push (bySimilarity s q) ep W) = Ok (V', C', W')" using Cons.prems n by simp
    from Cons.IH[OF this] show ?thesis by auto
  qed
qed

lemma searchLayer_subset:
  assumes "searchLayer q eps ef lvl s = (Ok W, s')"
  shows "set W \<subseteq> set eps \<union> {x. \<exists>k. x \<in> set (readLevel s k lvl)}"
proof -
  from assms obtain V0 C0 W0 where seed: "seedEntryPoints s q eps ({}, [], []) = Ok (V0, C0, W0)"
    and loop: "searchLoop q ef lvl (V0, C0, W0) s = (Ok W, s')"
    by (auto simp: searchLayer_def split: result.splits)
  from seedEntryPoints_subset[OF seed] searchLoop_subset[OF loop]
  show ?thesis by auto
qed

section \<open>Insertion of a new id without shrinking\<close>

lemma adjacencyOnly_length: "adjacencyOnly s s' \<Longrightarrow> length (nodes s') = length (nodes s)"
  using adjacencyOnly_keys[of s s'] by (metis length_map)

lemma adjacencyOnly_M: "adjacencyOnly s s' \<Longrightarrow> M s' = M s"
  by (simp add: adjacencyOnly_def)

lemma connectLevels_linkInvariant:
  assumes "linkInvariant s" and "getNode s z \<noteq> None"
    and "\<forall>ep \<in> set eps. getNode s ep \<noteq> None \<and> ep \<noteq> z"
    and "\<forall>i \<in> set levels. \<forall>k. z \<notin> set (readLevel s k (nat i))"
    and "distinct (map nat levels)"
    and "int (length (nodes s)) - 1 \<le> M s"
  shows "\<exists>s'. connectLevels z levels eps s = (Ok (), s') \<and> linkInvariant s' \<and> adjacencyOnly s s'"
  using assms
proof (induction levels arbitrary: eps s)
  case Nil
  then show ?case by simp
next
  case (Cons i levels)
  note wf = linkInvariant_wellFormed[OF Cons.prems(1)]
  have cl: "closedAdjacency s" using wf by (simp add: wellFormed_def)
  have er: "\<forall>ep \<in> set eps. getNode s ep \<noteq> None" using Cons.prems(3) by simp
  from searchLayer_ok[OF cl er, of "vector (nodeAt s z)" "efConstruction s" "nat i"]
  obtain found s1 where sl: "searchLayer (vector (nodeAt s z)) eps (efConstruction s) (nat i) s
        = (Ok found, s1)" and rf: "\<forall>x \<in> set found. getNode s x \<noteq> None" by blast
  have zf: "z \<notin> set found"
    using searchLayer_subset[OF sl] Cons.prems(3,4) by auto
  have fr: "unchangedButInitialised s s1" using sl by (rule searchLayer_frame)
  note a1 = unchangedButInitialised_adjacencyOnly[OF fr]
  have li1: "linkInvariant s1" using Cons.prems(1) frame_linkInvariant[OF fr] by simp
  note wf1 = linkInvariant_wellFormed[OF li1]
  have z1: "getNode s1 z \<noteq> None" using Cons.prems(2) adjacencyOnly_getNode_None[OF a1] by simp
  let ?cl = "selectNeighbors found (M s1)"
  let ?s2 = "linkNeighbors z ?cl (nat i) s1"
  have cs: "\<forall>c \<in> set ?cl. getNode s1 c \<noteq> None \<and> c \<noteq> z"
    using rf zf set_selectNeighbors[of found "M s1"] adjacencyOnly_getNode_None[OF a1] by auto
  from linkNeighbors_linkInvariant[OF li1 z1 cs, of "nat i"]
  have li2: "linkInvariant ?s2"
    and other: "\<forall>k l'. l' \<noteq> nat i \<longrightarrow> readLevel ?s2 k l' = readLevel s1 k l'" by auto
  from linkNeighbors_props[OF wf1 z1, of ?cl "nat i"]
  have a2: "adjacencyOnly s1 ?s2"
    and df: "\<forall>c \<in> set ?cl. getNode s1 (uniqueid (nodeAt s1 c)) \<noteq> None \<longrightarrow>
               neighborsAt ?s2 (uniqueid (nodeAt s1 c)) (nat i) \<noteq> None" by auto
  note a12 = adjacencyOnly_trans[OF a1 a2]
  have df2: "\<forall>c \<in> set ?cl. getNode ?s2 (uniqueid (nodeAt ?s2 c)) \<noteq> None \<longrightarrow>
               neighborsAt ?s2 (uniqueid (nodeAt ?s2 c)) (nat i) \<noteq> None"
    using df adjacencyOnly_getNode_None[OF a2] adjacencyOnly_nodeAt(1)[OF a2] by simp
  have cnt2: "int (length (nodes ?s2)) - 1 \<le> M ?s2"
    using Cons.prems(6) adjacencyOnly_length[OF a12] adjacencyOnly_M[OF a12] by simp
  have sh: "shrinkNeighbors ?cl (nat i) ?s2 = (Ok (), ?s2)"
    by (rule shrinkNeighbors_noop[OF li2 cnt2 df2])
  have z2: "getNode ?s2 z \<noteq> None" using Cons.prems(2) adjacencyOnly_getNode_None[OF a12] by simp
  have f2: "\<forall>ep \<in> set found. getNode ?s2 ep \<noteq> None \<and> ep \<noteq> z"
    using rf zf adjacencyOnly_getNode_None[OF a12] by auto
  have rem2: "\<forall>j \<in> set levels. \<forall>k. z \<notin> set (readLevel ?s2 k (nat j))"
  proof (intro ballI allI)
    fix j k assume j: "j \<in> set levels"
    then have "nat j \<in> nat ` set levels" by (rule imageI)
    then have "nat j \<noteq> nat i" using Cons.prems(5) by auto
    then have "readLevel ?s2 k (nat j) = readLevel s k (nat j)"
      using other frame_readLevel[OF fr] by simp
    then show "z \<notin> set (readLevel ?s2 k (nat j))" using Cons.prems(4) j by simp
  qed
  have dl: "distinct (map nat levels)" using Cons.prems(5) by simp
  from Cons.IH[OF li2 z2 f2 rem2 dl cnt2]
  obtain s' where rec: "connectLevels z levels found ?s2 = (Ok (), s')" and li: "linkInvariant s'"
    and a: "adjacencyOnly ?s2 s'" by blast
  have "connectLevels z (i # levels) eps s = (Ok (), s')" using sl sh rec by simp
  then show ?case using li adjacencyOnly_trans[OF a12 a] by blast
qed

lemma descend_avoids:
  assumes "descend q levels eps s = (Ok eps', s')" and "\<forall>k l. z \<notin> set (readLevel s k l)"
    and "z \<notin> set eps"
  shows "z \<notin> set eps'"
  using assms
proof (induction levels arbitrary: eps s)
  case Nil
  then show ?case by simp
next
  case (Cons i levels)
  obtain r1 s1 where sl: "searchLayer q eps 1 (nat i) s = (r1, s1)"
    by (cases "searchLayer q eps 1 (nat i) s")
  show ?case
  proof (cases r1)
    case (Throw e)
    then show ?thesis using Cons.prems(1) sl by simp
  next
    case (Ok found)
    have fr: "unchangedButInitialised s s1" using sl by (rule searchLayer_frame)
    have zf: "z \<notin> set found" using searchLayer_subset[OF sl[unfolded Ok]] Cons.prems(2,3) by auto
    let ?eps = "case popFirst found of (None, rest) \<Rightarrow> eps | (Some c, rest) \<Rightarrow> [c]"
    have ze: "z \<notin> set ?eps" using zf Cons.prems(3) by (cases found) (auto simp: popFirst_def)
    have rec: "descend q levels ?eps s1 = (Ok eps', s')"
      using Cons.prems(1) sl Ok by (cases found) (auto simp: popFirst_def)
    have "\<forall>k l. z \<notin> set (readLevel s1 k l)" using Cons.prems(2) frame_readLevel[OF fr] by simp
    from Cons.IH[OF rec this ze] show ?thesis .
  qed
qed

lemma downFrom_props: "distinct (downFrom hi lo) \<and> set (downFrom hi lo) = {lo..hi}"
proof (induction hi lo rule: downFrom.induct)
  case (1 hi lo)
  show ?case
  proof (cases "hi \<ge> lo")
    case True
    from "1.IH"[OF True] have "distinct (downFrom (hi - 1) lo)"
      "set (downFrom (hi - 1) lo) = {lo..hi - 1}" by auto
    then show ?thesis using True by (subst (1 2) downFrom.simps) auto
  next
    case False
    then show ?thesis by (subst (1 2) downFrom.simps) auto
  qed
qed

lemma distinct_levels: "distinct (map nat (downFrom hi 0))"
proof -
  have "inj_on nat (set (downFrom hi 0))"
    using downFrom_props[of hi 0] by (auto simp: inj_on_def)
  then show ?thesis using downFrom_props[of hi 0] by (simp add: distinct_map)
qed

lemma readLevel_fields [simp]:
  "readLevel (s\<lparr>entryPointId := e\<rparr>) = readLevel s"
  "readLevel (s\<lparr>levelMax := m\<rparr>) = readLevel s"
  "readLevel (s\<lparr>d := dm\<rparr>) = readLevel s"
  by (simp_all add: readLevel_def neighborsAt_def fun_eq_iff)

lemma linkInvariant_fields [simp]:
  "linkInvariant (s\<lparr>entryPointId := e\<rparr>) = linkInvariant s"
  "linkInvariant (s\<lparr>levelMax := m\<rparr>) = linkInvariant s"
  "linkInvariant (s\<lparr>d := dm\<rparr>) = linkInvariant s"
  by (simp_all add: linkInvariant_def)

lemma addNodeToGraphOptimized_linkInvariant:
  assumes "linkInvariant s" and "entryResolves s" and "getNode s z \<noteq> None"
    and "entryPointId s \<noteq> z" and "\<forall>k l. z \<notin> set (readLevel s k l)"
    and "int (length (nodes s)) - 1 \<le> M s"
  shows "\<exists>s'. addNodeToGraphOptimized z lvl s = (Ok (), s') \<and> linkInvariant s' \<and> entryResolves s'
           \<and> list_all2 sameFields (nodes s) (nodes s')
           \<and> d s' = d s \<and> M s' = M s \<and> efConstruction s' = efConstruction s
           \<and> probs s' = probs s \<and> metric s' = metric s
           \<and> similarityFunction s' = similarityFunction s"
proof (cases "entryPointId s = []")
  case True
  note wf = linkInvariant_wellFormed[OF assms(1)]
  have "uniqueid (nodeAt s z) = z" using wf assms(3) by (simp add: wellFormed_def keysMatch_nodeAt)
  then have "entryResolves (s\<lparr>entryPointId := uniqueid (nodeAt s z)\<rparr>)"
    using assms(3) by (simp add: entryResolves_def)
  then show ?thesis using True assms(1) by (simp add: addNodeToGraphOptimized_def list_all2_refl)
next
  case False
  note wf = linkInvariant_wellFormed[OF assms(1)]
  let ?q = "vector (nodeAt s z)"
  let ?eps = "case getNode s (entryPointId s) of None \<Rightarrow> [] | Some ep \<Rightarrow> [entryPointId s]"
  have cl: "closedAdjacency s" using wf by (simp add: wellFormed_def)
  have e0: "\<forall>ep \<in> set ?eps. getNode s ep \<noteq> None"
    by (cases "getNode s (entryPointId s)") auto
  have z0: "z \<notin> set ?eps" using assms(4) by (cases "getNode s (entryPointId s)") auto
  from descend_props[OF cl e0, of ?q "downFrom (levelMax s) (lvl + 1)"]
  obtain eps1 s1 where de: "descend ?q (downFrom (levelMax s) (lvl + 1)) ?eps s = (Ok eps1, s1)"
    and fr: "unchangedButInitialised s s1" and re: "\<forall>ep \<in> set eps1. getNode s ep \<noteq> None" by blast
  have ze: "z \<notin> set eps1" by (rule descend_avoids[OF de assms(5) z0])
  note a1 = unchangedButInitialised_adjacencyOnly[OF fr]
  have li1: "linkInvariant s1" using assms(1) frame_linkInvariant[OF fr] by simp
  have z1: "getNode s1 z \<noteq> None" using assms(3) adjacencyOnly_getNode_None[OF a1] by simp
  have e1: "\<forall>ep \<in> set eps1. getNode s1 ep \<noteq> None \<and> ep \<noteq> z"
    using re ze adjacencyOnly_getNode_None[OF a1] by auto
  have rem: "\<forall>i \<in> set (downFrom (min (levelMax s1) lvl) 0). \<forall>k. z \<notin> set (readLevel s1 k (nat i))"
    using assms(5) frame_readLevel[OF fr] by simp
  have cnt1: "int (length (nodes s1)) - 1 \<le> M s1"
    using assms(6) adjacencyOnly_length[OF a1] adjacencyOnly_M[OF a1] by simp
  from connectLevels_linkInvariant[OF li1 z1 e1 rem distinct_levels cnt1]
  obtain s2 where co: "connectLevels z (downFrom (min (levelMax s1) lvl) 0) eps1 s1 = (Ok (), s2)"
    and li2: "linkInvariant s2" and a2: "adjacencyOnly s1 s2" by blast
  note a = adjacencyOnly_trans[OF a1 a2]
  let ?s' = "if lvl > levelMax s2
             then s2\<lparr>levelMax := lvl, entryPointId := uniqueid (nodeAt s2 z)\<rparr> else s2"
  have run: "addNodeToGraphOptimized z lvl s = (Ok (), ?s')"
    using False de co by (simp add: addNodeToGraphOptimized_def)
  have z2: "getNode s2 z \<noteq> None" using assms(3) adjacencyOnly_getNode_None[OF a] by simp
  have u2: "uniqueid (nodeAt s2 z) = z"
    using linkInvariant_wellFormed[OF li2] z2 by (simp add: wellFormed_def keysMatch_nodeAt)
  have er2: "entryResolves s2"
    using assms(2) a adjacencyOnly_getNode_None[OF a] by (simp add: entryResolves_def adjacencyOnly_def)
  have "linkInvariant ?s'" using li2 by simp
  moreover have "entryResolves ?s'" using er2 z2 u2 by (simp add: entryResolves_def)
  moreover have "list_all2 sameFields (nodes s) (nodes ?s')"
    using adjacencyOnly_nodes[OF a] by simp
  moreover have "d ?s' = d s \<and> M ?s' = M s \<and> efConstruction ?s' = efConstruction s
           \<and> probs ?s' = probs s \<and> metric ?s' = metric s
           \<and> similarityFunction ?s' = similarityFunction s"
    using a by (simp add: adjacencyOnly_def)
  ultimately show ?thesis using run by blast
qed

lemma storeNode_linkInvariant:
  assumes "linkInvariant s" and "getNode s z = None" and "z \<noteq> []"
  shows "linkInvariant (storeNode z v lvl s)"
    and "\<forall>k l. z \<notin> set (readLevel (storeNode z v lvl s) k l)"
proof -
  let ?s = "storeNode z v lvl s"
  note wf = linkInvariant_wellFormed[OF assms(1)]
  have I: "\<forall>k l. [] \<notin> set (readLevel s k l)" "\<forall>k l. distinct (readLevel s k l)"
    "\<forall>k l. k \<notin> set (readLevel s k l)"
    "\<forall>k l y. getNode s k \<noteq> None \<and> \<not> deleted (nodeAt s k) \<and> int l \<le> level (nodeAt s k)
                \<and> y \<in> set (readLevel s k l)
             \<longrightarrow> k \<in> set (readLevel s y l)"
    using assms(1) by (auto simp: linkInvariant_def)
  have zin: "\<And>k l. z \<notin> set (readLevel s k l)"
    using linkInvariant_resolved[OF assms(1)] assms(2) by blast
  show z': "\<forall>k l. z \<notin> set (readLevel ?s k l)" using zin by (simp add: readLevel_storeNode)
  have nz: "\<And>k. k \<noteq> z \<Longrightarrow> nodeAt ?s k = nodeAt s k" by (simp add: nodeAt_def getNode_storeNode)
  have p1: "[] \<notin> set (map fst (nodes ?s))"
    using assms(1,3) by (simp add: keys_storeNode linkInvariant_def)
  have p5: "\<forall>k l y. getNode ?s k \<noteq> None \<and> \<not> deleted (nodeAt ?s k) \<and> int l \<le> level (nodeAt ?s k)
                \<and> y \<in> set (readLevel ?s k l)
             \<longrightarrow> k \<in> set (readLevel ?s y l)"
  proof (intro allI impI)
    fix k l y
    assume h: "getNode ?s k \<noteq> None \<and> \<not> deleted (nodeAt ?s k) \<and> int l \<le> level (nodeAt ?s k)
                \<and> y \<in> set (readLevel ?s k l)"
    then have kz: "k \<noteq> z" by (auto simp: readLevel_storeNode)
    then have pre: "getNode s k \<noteq> None" "\<not> deleted (nodeAt s k)" "int l \<le> level (nodeAt s k)"
      "y \<in> set (readLevel s k l)"
      using h nz by (auto simp: getNode_storeNode readLevel_storeNode)
    then have "k \<in> set (readLevel s y l)" using I(4) by blast
    moreover have "y \<noteq> z" using linkInvariant_resolved[OF assms(1) pre(4)] assms(2) by auto
    ultimately show "k \<in> set (readLevel ?s y l)" by (simp add: readLevel_storeNode)
  qed
  show "linkInvariant ?s"
    unfolding linkInvariant_def
    using wellFormed_storeNode[OF wf, of z v lvl] p1 p5 I(1,2,3)
    by (simp add: readLevel_storeNode)
qed

section \<open>Operations that keep the adjacency symmetric\<close>

lemma entryResolves_fields [simp]:
  "entryResolves (s\<lparr>levelMax := m\<rparr>) = entryResolves s"
  "entryResolves (s\<lparr>d := dm\<rparr>) = entryResolves s"
  by (simp_all add: entryResolves_def)

text \<open>
  \<open>addPoint\<close> of an id that is not stored, into an index of at most \<open>M\<close> nodes: whatever
  the outcome, the index left behind satisfies the invariants, and holds at most one
  node more.
\<close>

lemma addPoint_linkInvariant:
  assumes "linkInvariant s" and "entryResolves s" and "getNode s uid = None" and "uid \<noteq> []"
    and "int (length (nodes s)) \<le> M s"
  shows "linkInvariant (snd (addPoint uid v r s)) \<and> entryResolves (snd (addPoint uid v r s))
         \<and> M (snd (addPoint uid v r s)) = M s
         \<and> (map fst (nodes (snd (addPoint uid v r s))) = map fst (nodes s)
            \<or> map fst (nodes (snd (addPoint uid v r s))) = map fst (nodes s) @ [uid])"
proof (cases "v = [] \<or> (d s \<noteq> None \<and> Some (int (length v)) \<noteq> d s)")
  case True
  then have "snd (addPoint uid v r s) = s" by (auto simp: addPoint_def)
  then show ?thesis using assms by simp
next
  case False
  let ?lvl = "selectLevel (probs s) r"
  let ?s1 = "s\<lparr>d := Some (int (length v))\<rparr>"
  let ?s2 = "storeNode uid v ?lvl ?s1"
  let ?s3 = "raiseLevelMax uid ?s2"
  have eq: "addPoint uid v r s = addNodeToGraphOptimized uid ?lvl ?s3"
    using False by (auto simp: addPoint_def)
  have fresh: "uid \<notin> set (map fst (nodes s))" using assms(3) by (simp add: getNode_None_iff)
  have li1: "linkInvariant ?s1" using assms(1) by simp
  have g1: "getNode ?s1 uid = None" using assms(3) by simp
  note st = storeNode_linkInvariant[OF li1 g1 assms(4), of v ?lvl]
  have li3: "linkInvariant ?s3" using st(1) by (simp add: raiseLevelMax_def)
  have av3: "\<forall>k l. uid \<notin> set (readLevel ?s3 k l)" using st(2) by (simp add: raiseLevelMax_def)
  have n3: "getNode ?s3 uid \<noteq> None" by (simp add: raiseLevelMax_def getNode_storeNode)
  have ep3: "entryPointId ?s3 = entryPointId s" by (simp add: raiseLevelMax_def storeNode_def)
  have er3: "entryResolves ?s3"
    using assms(2) unfolding entryResolves_def ep3
    by (simp add: raiseLevelMax_def getNode_storeNode)
  have ne3: "entryPointId ?s3 \<noteq> uid"
    using assms(2,3,4) unfolding ep3 by (auto simp: entryResolves_def)
  have keys3: "map fst (nodes ?s3) = map fst (nodes s) @ [uid]"
    using fresh keys_storeNode[of uid v ?lvl ?s1] by (simp add: raiseLevelMax_def)
  then have "length (map fst (nodes ?s3)) = length (nodes s) + 1" by simp
  then have len3: "int (length (nodes ?s3)) = int (length (nodes s)) + 1" by simp
  have M3: "M ?s3 = M s" by (simp add: raiseLevelMax_def storeNode_def)
  have cnt3: "int (length (nodes ?s3)) - 1 \<le> M ?s3" using assms(5) len3 M3 by simp
  from addNodeToGraphOptimized_linkInvariant[OF li3 er3 n3 ne3 av3 cnt3, of ?lvl]
  obtain s' where run: "addNodeToGraphOptimized uid ?lvl ?s3 = (Ok (), s')"
    and li: "linkInvariant s'" and er: "entryResolves s'"
    and sf: "list_all2 sameFields (nodes ?s3) (nodes s')" and M': "M s' = M ?s3"
    by blast
  have "map fst (nodes s') = map fst (nodes s) @ [uid]"
    using list_all2_sameFields_keys[OF sf] keys3 by simp
  then show ?thesis using li er M' M3 by (simp add: eq run)
qed




text \<open>The soft delete changes the flag of one node.\<close>

lemma getNode_removePoint:
  "getNode (removePoint x s) k =
     (if k = x then map_option (\<lambda>n. n\<lparr>deleted := True\<rparr>) (getNode s x) else getNode s k)"
  by (cases "getNode s x") (auto simp: removePoint_def getNode_def update_conv')

lemma nodeAt_removePoint_eq:
  "nodeAt (removePoint x s) k =
     (if k = x \<and> getNode s x \<noteq> None then (nodeAt s k)\<lparr>deleted := True\<rparr> else nodeAt s k)"
proof (cases "getNode s x")
  case None
  then show ?thesis by (simp add: removePoint_def)
next
  case (Some n)
  then show ?thesis by (simp add: nodeAt_def getNode_removePoint)
qed

lemma nodeAt_removePoint:
  "neighbors (nodeAt (removePoint x s) k) = neighbors (nodeAt s k)"
  "level (nodeAt (removePoint x s) k) = level (nodeAt s k)"
  "uniqueid (nodeAt (removePoint x s) k) = uniqueid (nodeAt s k)"
  "\<not> deleted (nodeAt (removePoint x s) k) \<Longrightarrow> \<not> deleted (nodeAt s k)"
  by (simp_all add: nodeAt_removePoint_eq split: if_splits)

lemma readLevel_removePoint [simp]: "readLevel (removePoint x s) k l = readLevel s k l"
  by (simp add: readLevel_def neighborsAt_def nodeAt_removePoint)

lemma keys_removePoint [simp]: "map fst (nodes (removePoint x s)) = map fst (nodes s)"
proof (cases "getNode s x")
  case None
  then show ?thesis by (simp add: removePoint_def)
next
  case (Some n)
  then have "x \<in> fst ` set (nodes s)" using getNode_None_iff[of s x] by auto
  then show ?thesis using Some by (simp add: removePoint_def update_keys)
qed





section \<open>Symmetric adjacency\<close>


lemma empty_linkInvariant:
  assumes "nodes s = []"
  shows "linkInvariant s"
proof -
  have r0: "\<And>k l. readLevel s k l = []"
    by (simp add: readLevel_def neighborsAt_def nodeAt_def getNode_def nb_get_def assms)
  have "wellFormed s"
    by (simp add: wellFormed_def keysMatch_def closedAdjacency_def adjacentIds_def assms)
  then show ?thesis by (simp add: linkInvariant_def r0 assms)
qed


lemma HNSW_new_linkInvariant:
  assumes "HNSW_new table m efc dm mtr = Ok s"
  shows "linkInvariant s \<and> entryResolves s"
proof -
  have s: "nodes s = []" "entryPointId s = []"
    using assms by (auto simp: HNSW_new_def split: result.splits)
  then show ?thesis using empty_linkInvariant[of s] by (simp add: entryResolves_def)
qed



lemma graphInvariant_index0: "graphInvariant index0"
  using HNSW_new_linkInvariant[OF index0_constructed] by (simp add: graphInvariant_iff)

lemma graphInvariant_index_a: "graphInvariant index_a"
proof -
  have "getNode index0 ''a'' = None" "int (length (nodes index0)) \<le> M index0"
    by (simp_all add: index0_def getNode_def)
  with addPoint_linkInvariant[of index0 "''a''" "[1, 0, 0]" "1 / 2"] graphInvariant_index0
  show ?thesis by (simp add: graphInvariant_iff index_a_inserted)
qed

lemma graphInvariant_index_ab: "graphInvariant index_ab"
proof -
  have "getNode index_a ''b'' = None" "int (length (nodes index_a)) \<le> M index_a"
    by (simp_all add: index_a_def index0_def getNode_def)
  with addPoint_linkInvariant[of index_a "''b''" "[0, 1, 0]" "1 / 2"] graphInvariant_index_a
  show ?thesis by (simp add: graphInvariant_iff index_ab_inserted)
qed


text \<open>
  The invariant does not survive the second insertion of an id. After
  \<open>addPoint("a", [1, 0, 0])\<close> and \<open>addPoint("b", [0, 1, 0])\<close> the two nodes list each other;
  \<open>updatePoint("a", [0, 0, 1])\<close> returns, and then \<open>"b"\<close>, live, lists \<open>"a"\<close> at level 0 while
  the new record of \<open>"a"\<close> lists only itself.
\<close>

lemma updatePoint_breaks_symmetry:
  "graphInvariant index_ab
   \<and> updatePoint ''a'' [0, 0, 1] (1 / 2) index_ab = (Ok (), index_ab_updated_a)
   \<and> \<not> deleted (nodeAt index_ab_updated_a ''b'') \<and> 0 \<le> level (nodeAt index_ab_updated_a ''b'')
   \<and> readLevel index_ab_updated_a ''b'' 0 = [''a'']
   \<and> readLevel index_ab_updated_a ''a'' 0 = [''a'']
   \<and> \<not> symmetricAdjacency index_ab_updated_a"
proof -
  have run: "updatePoint ''a'' [0, 0, 1] (1 / 2) index_ab = (Ok (), index_ab_updated_a)"
    by (simp add: hnsw_eval index_ab_updated_a_def index_ab_def node_at_all_levels_def
        index_a_def node_a_def index0_def)
  have nodes: "nodes index_ab_updated_a =
     [(''a'', node_at_all_levels ''a'' [0, 0, 1] [''a'']),
      (''b'', node_at_all_levels ''b'' [0, 1, 0] [''a''])]"
    by (simp add: index_ab_updated_a_def index_a_def index0_def)
  have b: "\<not> deleted (nodeAt index_ab_updated_a ''b'')" "0 \<le> level (nodeAt index_ab_updated_a ''b'')"
    "readLevel index_ab_updated_a ''b'' 0 = [''a'']" "readLevel index_ab_updated_a ''a'' 0 = [''a'']"
    by (simp_all add: nodeAt_def getNode_def nodes node_at_all_levels_def readLevel_def
        neighborsAt_def nb_get_simps)
  have "\<not> symmetricAdjacency index_ab_updated_a"
  proof
    assume sym: "symmetricAdjacency index_ab_updated_a"
    have mem: "(''b'', node_at_all_levels ''b'' [0, 1, 0] [''a'']) \<in> set (nodes index_ab_updated_a)"
      by (simp add: nodes)
    have "''b'' \<in> set (readLevel index_ab_updated_a ''a'' 0)"
      using sym[unfolded symmetricAdjacency_def, rule_format, OF mem, of 0 "''a''"] b(3)
      by (simp add: node_at_all_levels_def)
    then show False by (simp add: b(4))
  qed
  then show ?thesis using run b graphInvariant_index_ab by simp
qed

section \<open>An insertion that shrinks adjacency lists\<close>


























end
